theory Spec2Isabelle
  imports Main "HOL-Library.Word"
begin

unbundle bit_operations_syntax

section \<open>Machine types and error numbers\<close>

text \<open>
  The programs are C on an LP64 Linux host: \<open>uint8_t\<close> is a byte, \<open>size_t\<close> is
  64 bits wide and unsigned, \<open>int\<close> is 32 bits wide.  The \<open>errno\<close> values are those of
  Linux; the functions return them negated.
\<close>

type_synonym u8 = "8 word"
type_synonym size_t = "64 word"

definition ENOENT :: int where "ENOENT = 2"
definition EIO :: int where "EIO = 5"
definition ENOMEM :: int where "ENOMEM = 12"
definition EACCES :: int where "EACCES = 13"
definition EINVAL :: int where "EINVAL = 22"
definition ERANGE :: int where "ERANGE = 34"

section \<open>util.c: the PCR mask check\<close>

text \<open>
  \<open>attest_util_check_mask(mask_in_len, mask_in, mask_ref_len, mask_ref)\<close>.
  A pointer is modelled by the memory that can be read through it: \<open>mask_in i\<close> is the
  byte \<open>mask_in[i]\<close>, whether or not \<open>i\<close> lies inside the array the caller passed.
  The \<open>for\<close> loop is \<open>check_mask_loop\<close>, with the loop counter as its last argument.
\<close>

function check_mask_loop :: "int \<Rightarrow> (nat \<Rightarrow> u8) \<Rightarrow> int \<Rightarrow> (nat \<Rightarrow> u8) \<Rightarrow> int \<Rightarrow> int" where
  "check_mask_loop mask_in_len mask_in mask_ref_len mask_ref i =
     (if i < mask_ref_len then
        (if i > mask_in_len \<and> mask_ref (nat i) \<noteq> 0 then - ENOENT
         else if (mask_in (nat i) AND mask_ref (nat i)) \<noteq> mask_ref (nat i) then - ENOENT
         else check_mask_loop mask_in_len mask_in mask_ref_len mask_ref (i + 1))
      else 0)"
  by pat_completeness auto
termination
  by (relation "measure (\<lambda>(mask_in_len, mask_in, mask_ref_len, mask_ref, i). nat (mask_ref_len - i))")
    simp_all

declare check_mask_loop.simps [simp del]

definition attest_util_check_mask :: "int \<Rightarrow> (nat \<Rightarrow> u8) \<Rightarrow> int \<Rightarrow> (nat \<Rightarrow> u8) \<Rightarrow> int" where
  "attest_util_check_mask mask_in_len mask_in mask_ref_len mask_ref =
     (if mask_in_len > mask_ref_len then - EINVAL
      else check_mask_loop mask_in_len mask_in mask_ref_len mask_ref 0)"

text \<open>
  A mask ``with its length'' is a list of bytes.  In memory the array \<open>xs\<close> is followed
  by other bytes, \<open>beyond\<close>: reading index \<open>length xs + n\<close> through the pointer yields
  \<open>beyond n\<close>.  The theorems below hold for every such memory.
\<close>

definition array :: "u8 list \<Rightarrow> (nat \<Rightarrow> u8) \<Rightarrow> nat \<Rightarrow> u8" where
  "array xs beyond i = (if i < length xs then xs ! i else beyond (i - length xs))"

definition zeroes :: "nat \<Rightarrow> u8" where
  "zeroes i = 0"

text \<open>The call with the asserted mask \<open>A\<close> as \<open>mask_in\<close> and the required mask \<open>R\<close> as
  \<open>mask_ref\<close>, each passed with its own length.\<close>

definition check_mask :: "(nat \<Rightarrow> u8) \<Rightarrow> u8 list \<Rightarrow> (nat \<Rightarrow> u8) \<Rightarrow> u8 list \<Rightarrow> int" where
  "check_mask beyondA A beyondR R =
     attest_util_check_mask (int (length A)) (array A beyondA) (int (length R)) (array R beyondR)"

text \<open>
  The specification's coverage relation, in its own words: every bit set in the
  required mask is set in the asserted mask.  Bit \<open>k\<close> of PCR byte \<open>i\<close> is set in a mask
  when the mask has a byte \<open>i\<close> and that byte has bit \<open>k\<close>.
\<close>

definition bit_set :: "u8 list \<Rightarrow> nat \<Rightarrow> nat \<Rightarrow> bool" where
  "bit_set xs i k = (if i < length xs then bit (xs ! i) k else False)"

definition covers :: "u8 list \<Rightarrow> u8 list \<Rightarrow> bool" where
  "covers A R = (\<forall>i<length R. \<forall>k<8. bit_set R i k \<longrightarrow> bit_set A i k)"

text \<open>What one round of the loop tests at index \<open>j\<close>.\<close>

definition mask_byte_ok :: "int \<Rightarrow> (nat \<Rightarrow> u8) \<Rightarrow> (nat \<Rightarrow> u8) \<Rightarrow> int \<Rightarrow> bool" where
  "mask_byte_ok la a r j = (\<not> (j > la \<and> r (nat j) \<noteq> 0) \<and> (a (nat j) AND r (nat j)) = r (nat j))"

section \<open>util.c: exact-length reads and writes\<close>

text \<open>
  A file descriptor is modelled by what its \<open>read(2)\<close> and \<open>write(2)\<close> calls will
  do.  \<open>rx\<close> lists the future results of \<open>read\<close>: a chunk of bytes that has arrived
  (a read takes at most \<open>count\<close> of them and leaves the rest), or a failure, on which
  \<open>read\<close> returns \<open>-1\<close>; when the list is exhausted the peer has closed the stream
  and \<open>read\<close> returns \<open>0\<close>.  \<open>wr\<close> lists the future results of \<open>write\<close>: the
  number of bytes the kernel accepts, or a failure (\<open>-1\<close>); when the list is exhausted
  every write is accepted in full.  \<open>tx\<close> collects the bytes written so far.
\<close>

datatype rd_event = Data "u8 list" | Rd_fail
datatype wr_event = Accept nat | Wr_fail

record sock =
  rx :: "rd_event list"
  wr :: "wr_event list"
  tx :: "u8 list"

text \<open>
  \<open>store buf off bs\<close>: the buffer after \<open>bs\<close> has been copied to \<open>buf + off\<close>.
  What lies behind a buffer in memory is not modelled: a copy that runs past the end
  of the buffer makes the list longer.
\<close>

definition store :: "u8 list \<Rightarrow> nat \<Rightarrow> u8 list \<Rightarrow> u8 list" where
  "store buf off bs = take off buf @ bs @ drop (off + length bs) buf"

text \<open>
  The kernel checks the range of a call, \<open>count\<close> bytes from \<open>buf + off\<close>, before it
  looks at the descriptor.  Of the memory of the process the model has only the
  block \<open>buf\<close>: a range inside the block is valid.  A range that leaves the block
  with a count above \<open>SSIZE_MAX\<close> cannot lie in the address space, whose user part
  ends far below \<open>2^63\<close>: the call returns \<open>-1\<close> (\<open>EFAULT\<close>) and the descriptor
  stays as it is.  \<open>unaddressable\<close> is this test.  A call with a smaller count is
  served also when its range leaves the block.
\<close>

definition SSIZE_MAX :: int where "SSIZE_MAX = 9223372036854775807"

definition unaddressable :: "u8 list \<Rightarrow> nat \<Rightarrow> nat \<Rightarrow> bool" where
  "unaddressable buf off count = (SSIZE_MAX < int count \<and> length buf < off + count)"

text \<open>\<open>read(fd, buf + off, count)\<close> and \<open>write(fd, buf + off, count)\<close>: the value
  returned, the buffer and the descriptor afterwards.\<close>

definition sys_read :: "sock \<Rightarrow> u8 list \<Rightarrow> nat \<Rightarrow> nat \<Rightarrow> int \<times> u8 list \<times> sock" where
  "sys_read s buf off count =
     (if unaddressable buf off count then (- 1, buf, s)
      else case rx s of
        [] \<Rightarrow> (0, buf, s)
      | Rd_fail # es \<Rightarrow> (- 1, buf, s\<lparr>rx := es\<rparr>)
      | Data bs # es \<Rightarrow>
          (let k = min count (length bs) in
           (int k, store buf off (take k bs),
            s\<lparr>rx := (if k < length bs then Data (drop k bs) # es else es)\<rparr>)))"

definition sys_write :: "sock \<Rightarrow> u8 list \<Rightarrow> nat \<Rightarrow> nat \<Rightarrow> int \<times> u8 list \<times> sock" where
  "sys_write s buf off count =
     (if unaddressable buf off count then (- 1, buf, s)
      else case wr s of
        [] \<Rightarrow> (int count, buf, s\<lparr>tx := tx s @ take count (drop off buf)\<rparr>)
      | Wr_fail # es \<Rightarrow> (- 1, buf, s\<lparr>wr := es\<rparr>)
      | Accept n # es \<Rightarrow>
          (let k = min count n in
           (int k, buf, s\<lparr>wr := es, tx := tx s @ take k (drop off buf)\<rparr>)))"

definition O_RDONLY :: int where "O_RDONLY = 0"
definition O_WRONLY :: int where "O_WRONLY = 1"

text \<open>The system call of one round of the loop of \<open>attest_util_rw_buf\<close>.\<close>

definition rw_call :: "sock \<Rightarrow> u8 list \<Rightarrow> size_t \<Rightarrow> int \<Rightarrow> size_t \<Rightarrow> int \<times> u8 list \<times> sock" where
  "rw_call s buf buf_len op processed =
     (if op = O_RDONLY then sys_read s buf (unat processed) (unat (buf_len - processed))
      else sys_write s buf (unat processed) (unat (buf_len - processed)))"

text \<open>What is left of a descriptor's future.  A call that the loop of
  \<open>attest_util_rw_buf\<close> does not take for a failure shortens it, or ends the loop, or
  (a refused range) moves \<open>processed\<close> back by one: this is why the loop ends.\<close>

fun rd_size :: "rd_event list \<Rightarrow> nat" where
  "rd_size [] = 0"
| "rd_size (Data bs # es) = Suc (length bs + rd_size es)"
| "rd_size (Rd_fail # es) = Suc (rd_size es)"

definition pending :: "sock \<Rightarrow> nat" where
  "pending s = rd_size (rx s) + length (wr s)"

lemma refused_call_progress:
  fixes processed buf_len :: size_t
  shows "processed + word_of_int (- 1) < buf_len \<longrightarrow>
         unat (processed + word_of_int (- 1)) < unat processed"
proof (cases "processed = 0")
  case True
  have "\<not> (- 1 :: size_t) < buf_len" by (simp add: not_less)
  with True show ?thesis by simp
next
  case False
  then have "unat (processed - 1) < unat processed"
    by (simp add: unat_minus_one unat_gt_0)
  then show ?thesis by simp
qed

lemma rw_call_progress:
  assumes "processed < buf_len" and "rw_call s buf buf_len op processed = (r, buf', s')"
    and "\<not> (word_of_int r :: size_t) \<le> 0"
  shows "pending s' < pending s \<or>
         pending s' = pending s \<and>
           (processed + word_of_int r < buf_len \<longrightarrow> unat (processed + word_of_int r) < unat processed)"
proof (cases "unaddressable buf (unat processed) (unat (buf_len - processed))")
  case True
  with assms(2) have "r = - 1" and "s' = s"
    by (auto simp: rw_call_def sys_read_def sys_write_def split: if_splits)
  with refused_call_progress [of processed buf_len] show ?thesis by simp
next
  case ok: False
  show ?thesis
  proof (cases "op = O_RDONLY")
    case True
    with assms(2) ok have rd: "(case rx s of
          [] \<Rightarrow> (0, buf, s)
        | Rd_fail # es \<Rightarrow> (- 1, buf, s\<lparr>rx := es\<rparr>)
        | Data bs # es \<Rightarrow>
            (let k = min (unat (buf_len - processed)) (length bs) in
             (int k, store buf (unat processed) (take k bs),
              s\<lparr>rx := (if k < length bs then Data (drop k bs) # es else es)\<rparr>))) = (r, buf', s')"
      by (simp add: rw_call_def sys_read_def)
    show ?thesis
    proof (cases "rx s")
      case Nil
      with rd assms(3) show ?thesis by simp
    next
      case (Cons e es)
      show ?thesis
      proof (cases e)
        case Rd_fail
        with Cons rd show ?thesis by (auto simp: pending_def)
      next
        case (Data bs)
        define k where "k = min (unat (buf_len - processed)) (length bs)"
        from rd Cons Data have r: "r = int k"
          and s': "s' = s\<lparr>rx := (if k < length bs then Data (drop k bs) # es else es)\<rparr>"
          by (auto simp: k_def Let_def)
        from assms(3) r have "k \<noteq> 0" by (cases k) auto
        with s' Cons Data show ?thesis by (auto simp: pending_def)
      qed
    qed
  next
    case False
    with assms(2) ok have w: "(case wr s of
          [] \<Rightarrow> (int (unat (buf_len - processed)), buf,
                 s\<lparr>tx := tx s @ take (unat (buf_len - processed)) (drop (unat processed) buf)\<rparr>)
        | Wr_fail # es \<Rightarrow> (- 1, buf, s\<lparr>wr := es\<rparr>)
        | Accept n # es \<Rightarrow>
            (let k = min (unat (buf_len - processed)) n in
             (int k, buf, s\<lparr>wr := es, tx := tx s @ take k (drop (unat processed) buf)\<rparr>))) = (r, buf', s')"
      by (simp add: rw_call_def sys_write_def)
    show ?thesis
    proof (cases "wr s")
      case Nil
      with w have r: "r = int (unat (buf_len - processed))" and p: "pending s' = pending s"
        by (auto simp: pending_def)
      have "processed + word_of_int r = buf_len" by (simp add: r)
      with p show ?thesis by simp
    next
      case (Cons e es)
      with w show ?thesis
        by (cases e) (auto simp: pending_def Let_def)
    qed
  qed
qed

text \<open>
  \<open>attest_util_rw_buf(fd, buf, buf_len, op)\<close>.  \<open>processed\<close> and \<open>cur_processed\<close> are
  \<open>size_t\<close>: the value \<open>read\<close> or \<open>write\<close> returns is converted to the unsigned type
  before it is compared with \<open>0\<close>.
\<close>

function rw_buf_loop :: "sock \<Rightarrow> u8 list \<Rightarrow> size_t \<Rightarrow> int \<Rightarrow> size_t \<Rightarrow> int \<times> u8 list \<times> sock" where
  "rw_buf_loop s buf buf_len op processed =
     (if processed < buf_len then
        (case rw_call s buf buf_len op processed of (r, buf', s') \<Rightarrow>
           (let cur_processed = (word_of_int r :: size_t) in
            if cur_processed \<le> 0 then (- EIO, buf', s')
            else rw_buf_loop s' buf' buf_len op (processed + cur_processed)))
      else (0, buf, s))"
  by pat_completeness auto
termination
proof (relation "measures [\<lambda>(s, buf, buf_len, op, processed). pending s,
          \<lambda>(s, buf, buf_len, op, processed). if processed < buf_len then Suc (unat processed) else 0]",
    goal_cases)
  case 1
  show ?case by simp
next
  case (2 s buf buf_len op processed r y buf' s' cur)
  then have "rw_call s buf buf_len op processed = (r, buf', s')"
    and "\<not> (word_of_int r :: size_t) \<le> 0" and "cur = word_of_int r" by simp_all
  from rw_call_progress [OF 2(1) this(1,2)] 2(1) this(3) show ?case by auto
qed

declare rw_buf_loop.simps [simp del]

definition attest_util_rw_buf :: "sock \<Rightarrow> u8 list \<Rightarrow> size_t \<Rightarrow> int \<Rightarrow> int \<times> u8 list \<times> sock" where
  "attest_util_rw_buf s buf buf_len op = rw_buf_loop s buf buf_len op 0"

definition attest_util_read_buf :: "sock \<Rightarrow> u8 list \<Rightarrow> size_t \<Rightarrow> int \<times> u8 list \<times> sock" where
  "attest_util_read_buf s buf buf_len = attest_util_rw_buf s buf buf_len O_RDONLY"

definition attest_util_write_buf :: "sock \<Rightarrow> u8 list \<Rightarrow> size_t \<Rightarrow> int \<times> u8 list \<times> sock" where
  "attest_util_write_buf s buf buf_len = attest_util_rw_buf s buf buf_len O_WRONLY"

text \<open>
  Streams without faults.  \<open>rd_bytes\<close> are the bytes that a descriptor will deliver
  before the end of the stream; its future is \<open>rd_clean\<close> when no read fails and no
  chunk is empty, and \<open>wr_clean\<close> when no write fails and the kernel accepts at
  least one byte each time.
\<close>

fun rd_bytes :: "rd_event list \<Rightarrow> u8 list" where
  "rd_bytes [] = []"
| "rd_bytes (Data bs # es) = bs @ rd_bytes es"
| "rd_bytes (Rd_fail # es) = rd_bytes es"

fun rd_clean :: "rd_event list \<Rightarrow> bool" where
  "rd_clean [] = True"
| "rd_clean (Data bs # es) = (bs \<noteq> [] \<and> rd_clean es)"
| "rd_clean (Rd_fail # es) = False"

fun wr_clean :: "wr_event list \<Rightarrow> bool" where
  "wr_clean [] = True"
| "wr_clean (Accept k # es) = (0 < k \<and> wr_clean es)"
| "wr_clean (Wr_fail # es) = False"

section \<open>util.c: parsing a PCR list\<close>

text \<open>
  \<open>strsep_all\<close> yields the tokens that the successive calls \<open>strsep(&list_ptr, ",")\<close>
  return: the pieces between the commas, empty pieces included, at least one.
  \<open>strtol\<close> is the C library function in base 10 (white space, an optional sign,
  digits, the result clamped to the range of \<open>long\<close>); \<open>long_to_int\<close> is the
  conversion of its result to \<open>int\<close> in the assignment to \<open>pcr\<close>.
\<close>

fun strsep_all :: "string \<Rightarrow> string list" where
  "strsep_all [] = [[]]"
| "strsep_all (c # cs) =
     (if c = CHR '','' then [] # strsep_all cs
      else (case strsep_all cs of t # ts \<Rightarrow> (c # t) # ts | [] \<Rightarrow> [[c]]))"

definition isspace :: "char \<Rightarrow> bool" where
  "isspace c = (c = CHR '' '' \<or> (9 \<le> (of_char c :: nat) \<and> (of_char c :: nat) \<le> 13))"

definition isdigit :: "char \<Rightarrow> bool" where
  "isdigit c = (48 \<le> (of_char c :: nat) \<and> (of_char c :: nat) \<le> 57)"

definition LONG_MAX :: int where "LONG_MAX = 2 ^ 63 - 1"
definition LONG_MIN :: int where "LONG_MIN = - (2 ^ 63)"

fun digits_value :: "int \<Rightarrow> string \<Rightarrow> int" where
  "digits_value acc [] = acc"
| "digits_value acc (c # cs) =
     (if isdigit c then digits_value (10 * acc + (int (of_char c) - 48)) cs else acc)"

definition strtol :: "string \<Rightarrow> int" where
  "strtol nptr =
     (let s = dropWhile isspace nptr;
          neg = (s \<noteq> [] \<and> hd s = CHR ''-'');
          s = (if s \<noteq> [] \<and> (hd s = CHR ''-'' \<or> hd s = CHR ''+'') then tl s else s);
          v = digits_value 0 s;
          v = (if neg then - v else v)
      in max LONG_MIN (min LONG_MAX v))"

definition long_to_int :: "int \<Rightarrow> int" where
  "long_to_int v = sint (word_of_int v :: 32 word)"

text \<open>
  \<open>attest_util_parse_pcr_list(pcr_list_str, pcr_list_num, pcr_list)\<close>.  The effect on
  the caller's array is the sequence of assignments \<open>pcr_list[i] = v\<close> the function
  performs, recorded in order as pairs \<open>(i, v)\<close>; the function returns \<open>rc\<close> with them.
  \<open>strdup_ok\<close> tells whether \<open>strdup\<close> found memory.
\<close>

fun parse_loop :: "int \<Rightarrow> string list \<Rightarrow> int \<Rightarrow> (int \<times> int) list \<Rightarrow> int \<times> (int \<times> int) list" where
  "parse_loop pcr_list_num [] i stores = (0, stores)"
| "parse_loop pcr_list_num (pcr_str # rest) i stores =
     (if i > pcr_list_num then (- ERANGE, stores)
      else (let pcr = long_to_int (strtol pcr_str) in
            if pcr < 0 then (pcr, stores)
            else parse_loop pcr_list_num rest (i + 1) (stores @ [(i, pcr)])))"

definition attest_util_parse_pcr_list :: "bool \<Rightarrow> string \<Rightarrow> int \<Rightarrow> int \<times> (int \<times> int) list" where
  "attest_util_parse_pcr_list strdup_ok pcr_list_str pcr_list_num =
     (let stores = map (\<lambda>i. (i, - 1)) [0..pcr_list_num - 1] in
      if \<not> strdup_ok then (- ENOMEM, stores)
      else parse_loop pcr_list_num (strsep_all pcr_list_str) 0 stores)"

text \<open>The assignments that stay inside an array of \<open>pcr_list_num\<close> entries.\<close>

definition in_bounds :: "int \<Rightarrow> (int \<times> int) list \<Rightarrow> bool" where
  "in_bounds pcr_list_num stores = list_all (\<lambda>(i, v). 0 \<le> i \<and> i < pcr_list_num) stores"

section \<open>Values on the wire\<close>

text \<open>
  The programs write a variable to a socket by passing its address and size, so the
  bytes sent are the variable's object representation.  The host is little-endian:
  \<open>le_bytes n v\<close> are the \<open>n\<close> bytes of the value \<open>v\<close>, lowest first, and
  \<open>le_val\<close> reads such bytes back.  \<open>sizeof(size_t)\<close> is 8 and \<open>sizeof(int)\<close> is 4.
\<close>

type_synonym c_int = "32 word"

definition sizeof_size_t :: size_t where "sizeof_size_t = 8"
definition sizeof_int :: size_t where "sizeof_int = 4"

fun le_bytes :: "nat \<Rightarrow> nat \<Rightarrow> u8 list" where
  "le_bytes 0 v = []"
| "le_bytes (Suc n) v = of_nat (v mod 256) # le_bytes n (v div 256)"

fun le_val :: "u8 list \<Rightarrow> nat" where
  "le_val [] = 0"
| "le_val (b # bs) = unat b + 256 * le_val bs"

definition size_t_bytes :: "size_t \<Rightarrow> u8 list" where
  "size_t_bytes w = le_bytes 8 (unat w)"

definition bytes_size_t :: "u8 list \<Rightarrow> size_t" where
  "bytes_size_t bs = of_nat (le_val bs)"

definition int_bytes :: "c_int \<Rightarrow> u8 list" where
  "int_bytes w = le_bytes 4 (unat w)"

definition bytes_int :: "u8 list \<Rightarrow> c_int" where
  "bytes_int bs = of_nat (le_val bs)"

text \<open>
  A \<open>char *\<close> is modelled by the memory it points to.  The string it denotes ends
  before the first zero byte; \<open>strlen\<close> is its length.
\<close>

definition c_string :: "u8 list \<Rightarrow> u8 list" where
  "c_string mem = takeWhile (\<lambda>c. c \<noteq> 0) mem"

definition strlen :: "u8 list \<Rightarrow> size_t" where
  "strlen mem = of_nat (length (c_string mem))"

text \<open>
  \<open>malloc\<close> belongs to the environment: for a size it yields no memory (\<open>NULL\<close>) or a
  block with some initial contents.  \<open>heap limit\<close> is the allocator that serves every
  request of at most \<open>limit\<close> bytes with zeroed memory and refuses larger ones.
\<close>

type_synonym allocator = "size_t \<Rightarrow> u8 list option"

definition heap :: "nat \<Rightarrow> allocator" where
  "heap limit n = (if unat n \<le> limit then Some (replicate (unat n) 0) else None)"

text \<open>
  \<open>incoming bs\<close> is the future of a descriptor on which the bytes \<open>bs\<close> have arrived
  and the peer has then closed its side.  \<open>peer bs\<close> is a fresh connection with that
  future, on which every write is accepted.
\<close>

definition incoming :: "u8 list \<Rightarrow> rd_event list" where
  "incoming bs = (if bs = [] then [] else [Data bs])"

definition peer :: "u8 list \<Rightarrow> sock" where
  "peer bs = \<lparr>rx = incoming bs, wr = [], tx = []\<rparr>"

section \<open>attest\_ra\_client.c: one request and its response\<close>

text \<open>
  \<open>send_receive(test_server_fqdn, op, message_in, message_out)\<close>, from the connected
  socket \<open>s\<close> on.  \<open>send_request\<close> is the part that writes the request (it also yields
  the value left in \<open>len\<close>), \<open>receive_response\<close> the part that reads the response;
  both yield \<open>rc\<close>, and the response part yields the buffer \<open>*message_out\<close> if one was
  allocated.
\<close>

definition send_request :: "sock \<Rightarrow> c_int \<Rightarrow> u8 list \<Rightarrow> int \<times> size_t \<times> sock" where
  "send_request s op message_in =
     (let len = strlen message_in;
          len = len + sizeof_size_t * 2 in
      case attest_util_write_buf s (size_t_bytes len) sizeof_size_t of (rc, _, s) \<Rightarrow>
      if rc \<noteq> 0 then (rc, len, s) else
      case attest_util_write_buf s (int_bytes op) sizeof_int of (rc, _, s) \<Rightarrow>
      if rc \<noteq> 0 then (rc, len, s) else
      case attest_util_write_buf s message_in (len - sizeof_size_t * 2) of (rc, _, s) \<Rightarrow>
      (rc, len, s))"

definition receive_response :: "allocator \<Rightarrow> sock \<Rightarrow> size_t \<Rightarrow> int \<times> u8 list option \<times> sock" where
  "receive_response malloc s len =
     (case attest_util_read_buf s (size_t_bytes len) sizeof_size_t of (rc, buf, s) \<Rightarrow>
      let len = bytes_size_t buf in
      if rc \<noteq> 0 then (rc, None, s) else
      if len = 0 then (- EINVAL, None, s) else
      case malloc len of
        None \<Rightarrow> (- ENOMEM, None, s)
      | Some message_out \<Rightarrow>
          let len = len - sizeof_size_t in
          case attest_util_read_buf s message_out len of (rc, message_out, s) \<Rightarrow>
          (rc, Some message_out, s))"

definition send_receive :: "allocator \<Rightarrow> sock \<Rightarrow> c_int \<Rightarrow> u8 list \<Rightarrow> int \<times> u8 list option \<times> sock" where
  "send_receive malloc s op message_in =
     (case send_request s op message_in of (rc, len, s) \<Rightarrow>
      if rc \<noteq> 0 then (rc, None, s) else receive_response malloc s len)"

section \<open>attest\_ra\_server.c: the accept loop\<close>

text \<open>
  The body of the loop of \<open>main\<close>, for one accepted connection \<open>s\<close>.  The variables
  \<open>len\<close> and \<open>op\<close> live across the rounds of the loop; a round receives their values
  and yields the new ones.

  \<open>read_request\<close> is the part that reads the request: it ends at \<open>goto out_free\<close>
  when a read of the length or of the opcode fails (\<open>Io_error\<close>) or when the read of
  the payload fails (\<open>Payload_error\<close>: the buffer has been allocated by then), at
  \<open>goto response\<close> with \<open>len = 0\<close> when the buffer cannot be allocated
  (\<open>No_memory\<close>), or with the buffer \<open>message_in\<close> filled and terminated
  (\<open>Request\<close>).  The assignment \<open>message_in[len] = 0\<close> is a list update: it is lost
  when \<open>len\<close> is not an index of the block that \<open>malloc\<close> gave.  \<open>serve_connection\<close>
  is the round as the connection sees it: what is read and written, and the value
  of \<open>rc\<close> that decides how the round ends.  The calls of \<open>free\<close> at \<open>out_free\<close> come
  with the loop, below; \<open>close\<close> and \<open>printf\<close> have no part in the model.
\<close>

datatype request = Io_error | Payload_error | No_memory | Request "u8 list"

definition read_request :: "allocator \<Rightarrow> size_t \<Rightarrow> c_int \<Rightarrow> sock \<Rightarrow> request \<times> size_t \<times> c_int \<times> sock" where
  "read_request malloc len op s =
     (case attest_util_read_buf s (size_t_bytes len) sizeof_size_t of (rc, buf, s) \<Rightarrow>
      let len = bytes_size_t buf in
      if rc \<noteq> 0 then (Io_error, len, op, s) else
      case attest_util_read_buf s (int_bytes op) sizeof_int of (rc, buf, s) \<Rightarrow>
      let op = bytes_int buf in
      if rc \<noteq> 0 then (Io_error, len, op, s) else
      let len = len - 2 * sizeof_size_t in
      case malloc (len + 1) of
        None \<Rightarrow> (No_memory, 0, op, s)
      | Some message_in \<Rightarrow>
          let message_in = message_in[unat len := 0] in
          case attest_util_read_buf s message_in len of (rc, message_in, s) \<Rightarrow>
          if rc \<noteq> 0 then (Payload_error, len, op, s) else (Request message_in, len, op, s))"

text \<open>
  The handlers of the five operations belong to the enrollment library and the
  certificate authority; they are parameters.  A handler receives the request string
  and yields its return value and the string it stored through its output pointer,
  which the server reads only when the return value allows it.  \<open>dispatch\<close> is the
  \<open>switch (op)\<close>.
\<close>

record handlers =
  make_credential :: "u8 list \<Rightarrow> int \<times> u8 list"
  make_cert :: "u8 list \<Rightarrow> int \<times> u8 list"
  process_csr :: "u8 list \<Rightarrow> int \<times> u8 list"
  sign_csr :: "u8 list \<Rightarrow> int \<times> u8 list"
  read_ca_cert :: "int \<times> u8 list"
  return_cert :: "u8 list \<Rightarrow> u8 list \<Rightarrow> int \<times> u8 list"
  gen_quote_nonce :: "u8 list \<Rightarrow> int \<times> u8 list"
  process_quote :: "u8 list \<Rightarrow> int \<times> u8 list"

definition dispatch :: "handlers \<Rightarrow> c_int \<Rightarrow> u8 list \<Rightarrow> int \<times> u8 list" where
  "dispatch h op message_in =
     (if op = 0 then make_credential h message_in
      else if op = 1 then make_cert h message_in
      else if op = 2 then
        (case process_csr h message_in of (rc, csr_str) \<Rightarrow>
         if rc < 0 then (rc, []) else
         case sign_csr h csr_str of (rc, cert_str) \<Rightarrow>
         if rc < 0 then (rc, []) else
         case read_ca_cert h of (rc, ca_cert_str) \<Rightarrow>
         if rc < 0 then (rc, []) else return_cert h cert_str ca_cert_str)
      else if op = 3 then gen_quote_nonce h message_in
      else if op = 4 then process_quote h message_in
      else (- EINVAL, []))"

text \<open>
  \<open>response\<close> is the code from the label \<open>response\<close> to the end of the loop body.
  It tells how the round ends: the loop goes on (\<open>Continue\<close>), is left by
  \<open>break\<close>, or is left by \<open>goto out\<close>.
\<close>

datatype flow = Continue | Break | Goto_out

definition response :: "sock \<Rightarrow> size_t \<Rightarrow> u8 list \<Rightarrow> flow \<times> sock" where
  "response s len message_out =
     (case attest_util_write_buf s (size_t_bytes len) sizeof_size_t of (rc, _, s) \<Rightarrow>
      if rc \<noteq> 0 then (Goto_out, s)
      else if len \<noteq> 0 then
        (case attest_util_write_buf s message_out (len - sizeof_size_t) of (rc, _, s) \<Rightarrow>
           (if rc \<noteq> 0 then Break else Continue, s))
      else (Continue, s))"

definition serve_connection ::
  "handlers \<Rightarrow> allocator \<Rightarrow> size_t \<Rightarrow> c_int \<Rightarrow> sock \<Rightarrow> flow \<times> size_t \<times> c_int \<times> sock" where
  "serve_connection h malloc len op s =
     (case read_request malloc len op s of
        (Io_error, len, op, s) \<Rightarrow> (Break, len, op, s)
      | (Payload_error, len, op, s) \<Rightarrow> (Break, len, op, s)
      | (No_memory, len, op, s) \<Rightarrow>
          (case response s len [] of (flow, s) \<Rightarrow> (flow, len, op, s))
      | (Request message_in, len, op, s) \<Rightarrow>
          let len = 0 in
          case dispatch h op (c_string message_in) of (rc, message_out) \<Rightarrow>
          let message_out = message_out @ [0];
              len = (if rc = 0 then strlen message_out + sizeof_size_t + 1 else len) in
          case response s len message_out of (flow, s) \<Rightarrow> (flow, len, op, s))"

text \<open>
  The buffers.  \<open>main\<close> declares the pointers \<open>message_in\<close>, \<open>message_out\<close>,
  \<open>csr_str\<close>, \<open>cert_str\<close> and \<open>ca_cert_str\<close> outside the loop, as null pointers, and
  frees all five at \<open>out_free\<close> without resetting them.  Such a variable holds a
  null pointer, a block that is allocated, or, after \<open>free\<close>, still the block that
  has been freed.  \<open>free v\<close> is the call of \<open>free\<close> on the variable \<open>v\<close>: nothing
  happens for a null pointer, an allocated block is released, and for a block
  already freed the behaviour is undefined (\<open>None\<close>).
\<close>

datatype pointer = Null | Allocated | Freed
datatype variable = Message_in | Message_out | Csr_str | Cert_str | Ca_cert_str

type_synonym pointers = "variable \<Rightarrow> pointer"

definition initial :: pointers where
  "initial v = Null"

definition free :: "variable \<Rightarrow> pointers \<Rightarrow> pointers option" where
  "free v p = (case p v of Null \<Rightarrow> Some p | Allocated \<Rightarrow> Some (p(v := Freed)) | Freed \<Rightarrow> None)"

definition out_free :: "pointers \<Rightarrow> pointers option" where
  "out_free p =
     (case free Message_in p of None \<Rightarrow> None | Some p \<Rightarrow>
      case free Message_out p of None \<Rightarrow> None | Some p \<Rightarrow>
      case free Csr_str p of None \<Rightarrow> None | Some p \<Rightarrow>
      case free Cert_str p of None \<Rightarrow> None | Some p \<Rightarrow>
      free Ca_cert_str p)"

text \<open>
  \<open>buffers\<close> gives the five pointers as they are when the round reaches
  \<open>out_free\<close>, from their values \<open>p\<close> at the start of the round.  A read of the
  length or the opcode that fails leaves them as the earlier rounds left them.
  \<open>message_in\<close> is assigned the result of \<open>malloc\<close>.  The other four are reset to
  null only on the way to the \<open>switch\<close>, which a failed \<open>malloc\<close> and a failed read
  of the payload do not take.  In the \<open>switch\<close> the handlers receive the addresses
  of output pointers: that of \<open>message_out\<close> for the operations 0, 1, 3 and 4, those
  of all four for the operation 2, none for any other opcode.  \<open>stored\<close>, given by
  the environment with the handlers, is the set of those that the handlers leave
  non-null; when the \<open>switch\<close> ends with \<open>rc = 0\<close>, \<open>message_out\<close> has been stored.
\<close>

definition buffers ::
  "handlers \<Rightarrow> variable set \<Rightarrow> allocator \<Rightarrow> size_t \<Rightarrow> c_int \<Rightarrow> sock \<Rightarrow> pointers \<Rightarrow> pointers" where
  "buffers h stored malloc len op s p =
     (case read_request malloc len op s of
        (Io_error, len, op, s) \<Rightarrow> p
      | (Payload_error, len, op, s) \<Rightarrow> p(Message_in := Allocated)
      | (No_memory, len, op, s) \<Rightarrow> p(Message_in := Null)
      | (Request message_in, len, op, s) \<Rightarrow>
          (\<lambda>v. if v = Message_in then Allocated
               else if (op = 2 \<or> op \<in> {0, 1, 3, 4} \<and> v = Message_out) \<and>
                       (v \<in> stored \<or> v = Message_out \<and> fst (dispatch h op (c_string message_in)) = 0)
               then Allocated else Null))"

text \<open>
  The loop itself.  The environment supplies the results of the successive calls of
  \<open>accept\<close>: a failure, or a connection together with the behaviour of the handlers
  and of \<open>malloc\<close> while it is served.  \<open>len\<close>, \<open>op\<close> and the five pointers live
  across the rounds.  A round whose write of the length field fails leaves by
  \<open>goto out\<close>, past the calls of \<open>free\<close>; every other round reaches \<open>out_free\<close> and
  then goes on or leaves by \<open>break\<close>.  The loop yields the connections it has served,
  in their final state, and how it ends: \<open>Stopped\<close> when \<open>main\<close> has left the loop
  and returns, \<open>Waiting\<close> when it is blocked in the next \<open>accept\<close>, \<open>Double_free\<close>
  when \<open>free\<close> has been called on a block already freed.
\<close>

datatype accepted = Accept_failed | Connected handlers "variable set" allocator sock
datatype status = Stopped | Waiting | Double_free

fun accept_loop :: "size_t \<Rightarrow> c_int \<Rightarrow> pointers \<Rightarrow> accepted list \<Rightarrow> sock list \<times> status" where
  "accept_loop len op p [] = ([], Waiting)"
| "accept_loop len op p (Accept_failed # cs) = accept_loop len op p cs"
| "accept_loop len op p (Connected h stored malloc s # cs) =
     (case serve_connection h malloc len op s of (flow, len', op', s') \<Rightarrow>
        if flow = Goto_out then ([s'], Stopped)
        else case out_free (buffers h stored malloc len op s p) of
               None \<Rightarrow> ([s'], Double_free)
             | Some p' \<Rightarrow>
                 if flow = Break then ([s'], Stopped)
                 else (case accept_loop len' op' p' cs of (ss, st) \<Rightarrow> (s' # ss, st)))"

text \<open>
  What \<open>out_free\<close> does, in one step: it is undefined when one of the five variables
  holds a block already freed (\<open>stale\<close>), and otherwise leaves every pointer that
  was not null \<open>released\<close>.
\<close>

definition stale :: "pointers \<Rightarrow> bool" where
  "stale p = (p Message_in = Freed \<or> p Message_out = Freed \<or> p Csr_str = Freed \<or>
              p Cert_str = Freed \<or> p Ca_cert_str = Freed)"

definition released :: "pointers \<Rightarrow> pointers" where
  "released p v = (if p v = Null then Null else Freed)"

text \<open>Handlers for the examples: the nonce generator answers \<open>nonce\<close>, every other
  handler fails.\<close>

definition refusing :: handlers where
  "refusing = \<lparr>make_credential = (\<lambda>m. (- EINVAL, [])), make_cert = (\<lambda>m. (- EINVAL, [])),
     process_csr = (\<lambda>m. (- EINVAL, [])), sign_csr = (\<lambda>m. (- EINVAL, [])),
     read_ca_cert = (- EACCES, []), return_cert = (\<lambda>a b. (- EINVAL, [])),
     gen_quote_nonce = (\<lambda>m. (0, [110, 111, 110, 99, 101])), process_quote = (\<lambda>m. (- EINVAL, []))\<rparr>"

section \<open>attest\_tls\_client.c: the exchange of attestation data\<close>

text \<open>
  \<open>be32 x\<close> are the four bytes of \<open>x\<close> in network order, highest first.  On the
  little-endian host \<open>htonl\<close> and \<open>ntohl\<close> yield the value whose bytes in memory are
  those of the argument in network order.
\<close>

definition be32 :: "32 word \<Rightarrow> u8 list" where
  "be32 x = rev (le_bytes 4 (unat x))"

definition htonl :: "32 word \<Rightarrow> 32 word" where
  "htonl x = of_nat (le_val (be32 x))"

definition ntohl :: "32 word \<Rightarrow> 32 word" where
  "ntohl x = of_nat (le_val (be32 x))"

text \<open>
  \<open>attest_util_read_file(path, len, data)\<close> (util.c), applied to the state of the
  file at \<open>path\<close>: missing or unreadable (\<open>stat\<close> or \<open>open\<close> fails), or present with
  its contents.  It yields \<open>rc\<close> and the values of \<open>*len\<close> and \<open>*data\<close>, which it
  receives as they were before the call.  \<open>mmap\<close> fails for a file of length 0 and
  is taken to succeed for any other.
\<close>

datatype attest_file = Missing | Contents "u8 list"

definition attest_util_read_file :: "attest_file \<Rightarrow> size_t \<Rightarrow> u8 list \<Rightarrow> int \<times> size_t \<times> u8 list" where
  "attest_util_read_file f len data =
     (case f of
        Missing \<Rightarrow> (- EACCES, len, data)
      | Contents bs \<Rightarrow>
          (let len = of_nat (length bs) in
           if bs = [] then (- ENOMEM, len, []) else (0, len, bs)))"

text \<open>
  \<open>send_receive_attest_data(server, attest_data_path, server_attest_data_size,
  server_attest_data)\<close>.  \<open>attest_data_path\<close> is \<open>None\<close> for a null pointer and the
  state of the file otherwise.  \<open>data_size\<close> is a \<open>size_t\<close>: \<open>htonl\<close> and \<open>ntohl\<close>
  take its low 32 bits, their result is widened back.  The function yields \<open>rc\<close> and
  the size and contents of the server's data when it has stored them.
\<close>

definition send_receive_attest_data ::
  "allocator \<Rightarrow> sock \<Rightarrow> attest_file option \<Rightarrow> int \<times> (size_t \<times> u8 list) option \<times> sock" where
  "send_receive_attest_data malloc server attest_data_path =
     (let client_attest_data = []; file_size = 0; data_size = 0 in
      case (case attest_data_path of
              None \<Rightarrow> (file_size, data_size, client_attest_data)
            | Some f \<Rightarrow>
                (case attest_util_read_file f file_size client_attest_data of
                   (rc, file_size, client_attest_data) \<Rightarrow>
                     (file_size, if rc = 0 then file_size else data_size, client_attest_data)))
      of (file_size, data_size, client_attest_data) \<Rightarrow>
      let data_size = ucast (htonl (ucast data_size)) in
      case attest_util_write_buf server (size_t_bytes data_size) sizeof_size_t of (rc, _, server) \<Rightarrow>
      if rc < 0 then (rc, None, server) else
      case (if file_size \<noteq> 0 then attest_util_write_buf server client_attest_data file_size
            else (rc, client_attest_data, server)) of (rc, _, server) \<Rightarrow>
      if rc < 0 then (rc, None, server) else
      case attest_util_read_buf server (size_t_bytes data_size) sizeof_size_t of (rc, buf, server) \<Rightarrow>
      let data_size = bytes_size_t buf in
      if rc < 0 then (rc, None, server) else
      let data_size = ucast (ntohl (ucast data_size)) in
      if data_size \<noteq> 0 then
        (case malloc data_size of
           None \<Rightarrow> (- ENOMEM, None, server)
         | Some server_attest_data \<Rightarrow>
             (case attest_util_read_buf server server_attest_data data_size of
                (rc, server_attest_data, server) \<Rightarrow>
                  if rc < 0 then (rc, None, server)
                  else (rc, Some (data_size, server_attest_data), server)))
      else (rc, None, server))"

text \<open>The local evidence: the contents of the configured file, and nothing when no
  file is configured or the file cannot be read.\<close>

definition evidence :: "attest_file option \<Rightarrow> u8 list" where
  "evidence attest_data_path = (case attest_data_path of Some (Contents bs) \<Rightarrow> bs | _ \<Rightarrow> [])"

section \<open>Properties of the PCR mask check\<close>

lemma check_mask_loop_result:
  "check_mask_loop la a lr r i =
     (if \<forall>j. i \<le> j \<and> j < lr \<longrightarrow> mask_byte_ok la a r j then 0 else - ENOENT)"
proof (induction la a lr r i rule: check_mask_loop.induct)
  case (1 la a lr r i)
  show ?case
  proof (cases "i < lr")
    case False
    then show ?thesis by (subst check_mask_loop.simps) auto
  next
    case True
    note lt = this
    have split: "(\<forall>j. i \<le> j \<and> j < lr \<longrightarrow> mask_byte_ok la a r j) =
        (mask_byte_ok la a r i \<and> (\<forall>j. i + 1 \<le> j \<and> j < lr \<longrightarrow> mask_byte_ok la a r j))"
      using lt by (metis add1_zle_eq order_le_less)
    show ?thesis
    proof (cases "mask_byte_ok la a r i")
      case False
      with lt show ?thesis
        unfolding split
        by (subst check_mask_loop.simps) (auto simp: mask_byte_ok_def)
    next
      case True
      then have IH: "check_mask_loop la a lr r (i + 1) =
        (if \<forall>j. i + 1 \<le> j \<and> j < lr \<longrightarrow> mask_byte_ok la a r j then 0 else - ENOENT)"
        using 1 lt by (auto simp: mask_byte_ok_def)
      have "check_mask_loop la a lr r i = check_mask_loop la a lr r (i + 1)"
        using True lt by (subst check_mask_loop.simps) (auto simp: mask_byte_ok_def)
      then show ?thesis
        unfolding split IH using True by simp
    qed
  qed
qed

lemma byte_covers: "((a::u8) AND r) = r \<longleftrightarrow> (\<forall>k<8. bit r k \<longrightarrow> bit a k)"
  by (auto simp: bit_eq_iff bit_and_iff dest: bit_imp_le_length)

lemma byte_zero: "(r::u8) = 0 \<longleftrightarrow> (\<forall>k<8. \<not> bit r k)"
  by (auto simp: bit_eq_iff dest: bit_imp_le_length)

lemma covers_bits:
  "covers A R = (\<forall>i<length R. \<forall>k<8. bit (R ! i) k \<longrightarrow> i < length A \<and> bit (A ! i) k)"
  by (auto simp: covers_def bit_set_def)

lemma mask_byte_ok_array:
  assumes "i < length R" and "length A < length R \<Longrightarrow> R ! length A = 0"
  shows "mask_byte_ok (int (length A)) (array A bA) (array R bR) (int i) \<longleftrightarrow>
         (\<forall>k<8. bit (R ! i) k \<longrightarrow> i < length A \<and> bit (A ! i) k)"
proof (cases "i < length A")
  case True
  with assms(1) show ?thesis
    by (simp add: mask_byte_ok_def array_def byte_covers)
next
  case False
  show ?thesis
  proof (cases "i = length A")
    case True
    with assms have "R ! i = 0" by simp
    with assms(1) True show ?thesis
      by (simp add: mask_byte_ok_def array_def)
  next
    case False
    with \<open>\<not> i < length A\<close> have "length A < i" by simp
    with assms(1)
    have "mask_byte_ok (int (length A)) (array A bA) (array R bR) (int i) \<longleftrightarrow> R ! i = 0"
      by (auto simp: mask_byte_ok_def array_def)
    also have "\<dots> \<longleftrightarrow> (\<forall>k<8. \<not> bit (R ! i) k)"
      by (rule byte_zero)
    finally show ?thesis
      using \<open>\<not> i < length A\<close> by simp
  qed
qed

lemma all_mask_bytes_ok:
  assumes "length A < length R \<Longrightarrow> R ! length A = 0"
  shows "(\<forall>j. 0 \<le> j \<and> j < int (length R) \<longrightarrow>
            mask_byte_ok (int (length A)) (array A bA) (array R bR) j) \<longleftrightarrow> covers A R"
proof
  assume L: "\<forall>j. 0 \<le> j \<and> j < int (length R) \<longrightarrow>
            mask_byte_ok (int (length A)) (array A bA) (array R bR) j"
  show "covers A R"
    unfolding covers_bits
  proof (rule allI, rule impI)
    fix i assume "i < length R"
    with L have "mask_byte_ok (int (length A)) (array A bA) (array R bR) (int i)" by simp
    with \<open>i < length R\<close> assms
    show "\<forall>k<8. bit (R ! i) k \<longrightarrow> i < length A \<and> bit (A ! i) k"
      by (simp add: mask_byte_ok_array)
  qed
next
  assume C: "covers A R"
  show "\<forall>j. 0 \<le> j \<and> j < int (length R) \<longrightarrow>
            mask_byte_ok (int (length A)) (array A bA) (array R bR) j"
  proof (intro allI impI)
    fix j :: int assume j: "0 \<le> j \<and> j < int (length R)"
    then have n: "nat j < length R" and e: "int (nat j) = j" by auto
    from C n have c: "\<forall>k<8. bit (R ! nat j) k \<longrightarrow> nat j < length A \<and> bit (A ! nat j) k"
      by (simp add: covers_bits)
    have "mask_byte_ok (int (length A)) (array A bA) (array R bR) (int (nat j)) \<longleftrightarrow>
          (\<forall>k<8. bit (R ! nat j) k \<longrightarrow> nat j < length A \<and> bit (A ! nat j) k)"
      using n assms by (rule mask_byte_ok_array)
    with c have "mask_byte_ok (int (length A)) (array A bA) (array R bR) (int (nat j))"
      by blast
    then show "mask_byte_ok (int (length A)) (array A bA) (array R bR) j"
      unfolding e .
  qed
qed

lemmas covers_eval = covers_def bit_set_def less_Suc_eq all_conj_distrib numeral_nat

text \<open>
  Claim C1, as amended.  The call returns \<open>-EINVAL\<close> when the asserted mask is longer
  than the required one.  Otherwise it returns \<open>0\<close> if every bit set in the required
  mask \<open>R\<close> is set in the asserted mask \<open>A\<close>, and \<open>-ENOENT\<close> if not.  This holds for
  masks of equal length, and for a shorter \<open>A\<close> whenever the byte of \<open>R\<close> at index
  \<open>length A\<close> is zero; it holds whatever memory follows the two arrays.
\<close>

theorem check_mask_covers:
  assumes "length A < length R \<Longrightarrow> R ! length A = 0"
  shows "check_mask bA A bR R =
           (if length R < length A then - EINVAL else if covers A R then 0 else - ENOENT)"
  using all_mask_bytes_ok [OF assms, of bA bR]
  by (simp add: check_mask_def attest_util_check_mask_def check_mask_loop_result)

theorem check_mask_covers_witness:
  "length [7::u8] < length [5::u8, 0] \<and> [5::u8, 0] ! length [7::u8] = 0 \<and>
   covers [7] [5, 0] \<and> check_mask zeroes [7] zeroes [5, 0] = 0"
proof -
  have h: "length [7::u8] < length [5::u8, 0] \<Longrightarrow> [5::u8, 0] ! length [7::u8] = 0" by simp
  have c: "covers [7] [5, 0]" by (simp add: covers_eval)
  show ?thesis
    using check_mask_covers [OF h, of zeroes zeroes] c by simp
qed

text \<open>
  The two examples of claim C1 (masks of one byte): \<open>R = 0b00000101\<close> with
  \<open>A = 0b00000100\<close> fails with \<open>-ENOENT\<close>, and with \<open>A = 0b00000111\<close> succeeds.
\<close>

lemma check_mask_examples:
  "check_mask bA [4] bR [5] = - ENOENT" "check_mask bA [7] bR [5] = 0"
proof -
  have a: "\<not> covers [4] [5]" by (simp add: covers_eval)
  have b: "covers [7] [5]" by (simp add: covers_eval)
  have h: "length [x::u8] < length [5::u8] \<Longrightarrow> [5::u8] ! length [x] = 0" for x by simp
  show "check_mask bA [4] bR [5] = - ENOENT"
    using check_mask_covers [OF h, of 4 bA bR] a by simp
  show "check_mask bA [7] bR [5] = 0"
    using check_mask_covers [OF h, of 7 bA bR] b by simp
qed

text \<open>
  Claim C1 as stated fails: the asserted mask \<open>[0b00000111, 0]\<close> has every bit that
  the required mask \<open>[0b00000101]\<close> sets, and the call does not succeed, since the
  asserted mask is the longer one.
\<close>

theorem check_mask_covers_counterexample:
  "covers [7, 0] [5] \<and> check_mask zeroes [7, 0] zeroes [5] = - EINVAL"
proof -
  have c: "covers [7, 0] [5]" by (simp add: covers_eval)
  have "check_mask zeroes [7, 0] zeroes [5] = - EINVAL"
    by (simp add: check_mask_def attest_util_check_mask_def)
  with c show ?thesis by simp
qed

text \<open>
  Claim C3, as amended.  The call fails with \<open>-EINVAL\<close> exactly when the asserted mask
  is strictly longer than the required mask; an asserted mask that is shorter than
  the required one never yields \<open>-EINVAL\<close>.
\<close>

theorem check_mask_einval_iff:
  "(check_mask bA A bR R = - EINVAL) = (length R < length A)"
  by (simp add: check_mask_def attest_util_check_mask_def check_mask_loop_result
      EINVAL_def ENOENT_def)

text \<open>
  Claim C3 as stated fails: the asserted mask \<open>[0b00000100]\<close> is shorter than the
  required mask \<open>[0b00000101, 0]\<close>, and the call returns \<open>-ENOENT\<close>, not \<open>-EINVAL\<close>.
\<close>

theorem check_mask_shorter_counterexample:
  "length [4::u8] < length [5::u8, 0] \<and> check_mask zeroes [4] zeroes [5, 0] = - ENOENT
   \<and> - ENOENT \<noteq> - EINVAL"
  by code_simp

section \<open>Properties of the exact-length transfer\<close>

text \<open>
  Claim C7 fails on the code.  The first \<open>read\<close> (or \<open>write\<close>) of a transfer of four
  bytes fails and returns \<open>-1\<close>.  Converted to \<open>size_t\<close> the value is not \<open>\<le> 0\<close>;
  added to \<open>processed\<close> it ends the loop, and the function returns \<open>0\<close>: success,
  with the buffer untouched and nothing written.
\<close>

theorem rw_buf_success_after_failed_call:
  "attest_util_read_buf \<lparr>rx = [Rd_fail], wr = [], tx = []\<rparr> [1, 2, 3, 4] 4
     = (0, [1, 2, 3, 4], \<lparr>rx = [], wr = [], tx = []\<rparr>) \<and>
   attest_util_write_buf \<lparr>rx = [], wr = [Wr_fail], tx = []\<rparr> [1, 2, 3, 4] 4
     = (0, [1, 2, 3, 4], \<lparr>rx = [], wr = [], tx = []\<rparr>)"
  by code_simp

text \<open>
  A failed call in the middle of a transfer is not reported either.  One byte has
  arrived, the next \<open>read\<close> fails, and four more bytes arrive: \<open>processed\<close> goes
  from 1 back to 0, the next chunk overwrites the byte already received, and the
  function returns \<open>0\<close> with the bytes 2 to 5 of the stream in the buffer.
\<close>

lemma rw_buf_loses_byte_after_failed_call:
  "attest_util_read_buf \<lparr>rx = [Data [9], Rd_fail, Data [8, 7, 6, 5]], wr = [], tx = []\<rparr> [0, 0, 0, 0] 4
     = (0, [8, 7, 6, 5], \<lparr>rx = [], wr = [], tx = []\<rparr>)"
  by code_simp

section \<open>Properties of the PCR list parser\<close>

text \<open>
  Claim C10 fails on the code.  With room for one entry and the list \<open>1,2\<close> the
  parser stores the second entry at index 1, beyond the array, and returns \<open>0\<close>:
  the test \<open>i > pcr_list_num\<close> lets \<open>i = pcr_list_num\<close> pass.  \<open>-ERANGE\<close> comes one
  entry later, after the store.
\<close>

theorem parse_pcr_list_stores_beyond_array:
  "attest_util_parse_pcr_list True ''1,2'' 1 = (0, [(0, - 1), (0, 1), (1, 2)]) \<and>
   \<not> in_bounds 1 (snd (attest_util_parse_pcr_list True ''1,2'' 1)) \<and>
   attest_util_parse_pcr_list True ''1,2,3'' 1 = (- ERANGE, [(0, - 1), (0, 1), (1, 2)])"
  by code_simp

text \<open>
  The server calls the parser with its array of 24 entries.  A list of 25 entries is
  accepted, and the last entry is stored at index 24.
\<close>

lemma parse_pcr_list_server_example:
  "fst (attest_util_parse_pcr_list True
      ''0,1,2,3,4,5,6,7,8,9,10,11,12,13,14,15,16,17,18,19,20,21,22,23,24'' 24) = 0 \<and>
   last (snd (attest_util_parse_pcr_list True
      ''0,1,2,3,4,5,6,7,8,9,10,11,12,13,14,15,16,17,18,19,20,21,22,23,24'' 24)) = (24, 24)"
  by code_simp

section \<open>Properties of the transfer functions on a well-behaved socket\<close>

lemma length_le_bytes [simp]: "length (le_bytes n v) = n"
  by (induction n arbitrary: v) auto

lemma le_val_le_bytes: "v < 256 ^ n \<Longrightarrow> le_val (le_bytes n v) = v"
proof (induction n arbitrary: v)
  case 0
  then show ?case by simp
next
  case (Suc n)
  then have "v div 256 < 256 ^ n"
    by (simp add: less_mult_imp_div_less mult.commute)
  with Suc.IH have "le_val (le_bytes n (v div 256)) = v div 256" by simp
  moreover have "unat (of_nat (v mod 256) :: u8) = v mod 256"
    by (simp add: unat_of_nat)
  ultimately show ?case by simp
qed

lemma le_val_bound: "le_val bs < 256 ^ length bs"
proof (induction bs)
  case Nil
  then show ?case by simp
next
  case (Cons b bs)
  have "unat b < 256" using unsigned_less [of b, where ?'a = nat] by simp
  with Cons show ?case by simp
qed

lemma le_bytes_le_val: "le_bytes (length bs) (le_val bs) = bs"
proof (induction bs)
  case Nil
  then show ?case by simp
next
  case (Cons b bs)
  have b: "unat b < 256" using unsigned_less [of b, where ?'a = nat] by simp
  then have "(unat b + 256 * le_val bs) mod 256 = unat b"
    and "(unat b + 256 * le_val bs) div 256 = le_val bs" by simp_all
  with Cons show ?case by simp
qed

lemma read_buf_zero: "attest_util_read_buf s buf 0 = (0, buf, s)"
  by (simp add: attest_util_read_buf_def attest_util_rw_buf_def rw_buf_loop.simps)

lemma write_buf_zero: "attest_util_write_buf s buf 0 = (0, buf, s)"
  by (simp add: attest_util_write_buf_def attest_util_rw_buf_def rw_buf_loop.simps)

lemma rw_buf_loop_done: "rw_buf_loop s buf n op n = (0, buf, s)"
  by (simp add: rw_buf_loop.simps)

lemma word_of_nat_pos: "0 < n \<Longrightarrow> n < 2 ^ 64 \<Longrightarrow> (0 :: size_t) < of_nat n"
  by (simp add: word_less_nat_alt unat_of_nat)

lemma addressable: "off + count \<le> length buf \<Longrightarrow> \<not> unaddressable buf off count"
  by (simp add: unaddressable_def)

lemma length_store: "off + length bs \<le> length buf \<Longrightarrow> length (store buf off bs) = length buf"
  by (simp add: store_def)

lemma take_store: "off \<le> length buf \<Longrightarrow> take (off + length bs) (store buf off bs) = take off buf @ bs"
  by (simp add: store_def)

lemma drop_store:
  "off + length bs \<le> n \<Longrightarrow> off + length bs \<le> length buf \<Longrightarrow> drop n (store buf off bs) = drop n buf"
  by (simp add: store_def)

lemma read_buf_ok:
  assumes "rx s = incoming bs" and "n \<le> length bs" and "n < 2 ^ 64" and "n \<le> length buf"
  shows "attest_util_read_buf s buf (of_nat n) =
           (0, take n bs @ drop n buf, s\<lparr>rx := incoming (drop n bs)\<rparr>)"
proof (cases "n = 0")
  case True
  with assms show ?thesis by (simp add: read_buf_zero)
next
  case False
  with assms(2) have ne: "bs \<noteq> []" by auto
  from False assms(3) have pos: "(0 :: size_t) < of_nat n" by (simp add: word_of_nat_pos)
  have un: "unat (of_nat n :: size_t) = n" using assms(3) by (simp add: unat_of_nat)
  have call: "rw_call s buf (of_nat n) O_RDONLY 0 =
      (int n, take n bs @ drop n buf, s\<lparr>rx := incoming (drop n bs)\<rparr>)"
    using assms ne by (auto simp: rw_call_def sys_read_def incoming_def un store_def Let_def min_def addressable)
  have nz: "(of_nat n :: size_t) \<noteq> 0" using pos by auto
  show ?thesis
    unfolding attest_util_read_buf_def attest_util_rw_buf_def
    by (subst rw_buf_loop.simps) (simp add: pos call nz rw_buf_loop_done Let_def)
qed


lemma write_buf_ok:
  assumes "wr s = []" and "n \<le> length buf" and "n < 2 ^ 64"
  shows "attest_util_write_buf s buf (of_nat n) = (0, buf, s\<lparr>tx := tx s @ take n buf\<rparr>)"
proof (cases "n = 0")
  case True
  then show ?thesis by (simp add: write_buf_zero)
next
  case False
  from False assms(3) have pos: "(0 :: size_t) < of_nat n" by (simp add: word_of_nat_pos)
  have un: "unat (of_nat n :: size_t) = n" using assms(3) by (simp add: unat_of_nat)
  have call: "rw_call s buf (of_nat n) O_WRONLY 0 = (int n, buf, s\<lparr>tx := tx s @ take n buf\<rparr>)"
    using assms by (simp add: rw_call_def sys_write_def un O_WRONLY_def O_RDONLY_def addressable)
  have nz: "(of_nat n :: size_t) \<noteq> 0" using pos by auto
  show ?thesis
    unfolding attest_util_write_buf_def attest_util_rw_buf_def
    by (subst rw_buf_loop.simps) (simp add: pos call nz rw_buf_loop_done Let_def)
qed

lemma unat_add_small:
  fixes p N :: size_t
  assumes "unat p + k \<le> unat N"
  shows "unat (p + of_nat k) = unat p + k"
proof -
  have "unat N < 2 ^ 64" using unsigned_less [of N, where ?'a = nat] by simp
  with assms have "unat p + k < 2 ^ 64" by simp
  then show ?thesis
    by (simp add: unat_word_ariths unat_of_nat)
qed

lemma take_take_drop: "k \<le> n \<Longrightarrow> take k xs @ take (n - k) (drop k xs) = take n xs"
  by (metis add_diff_inverse_nat not_le take_add leD)

lemma rw_step:
  fixes p N :: size_t
  assumes "p < N" and "rw_call s buf N op p = (int k, buf', s')" and "0 < k" and "unat p + k \<le> unat N"
  shows "rw_buf_loop s buf N op p = rw_buf_loop s' buf' N op (p + of_nat k)"
    and "unat (p + of_nat k) = unat p + k" and "p + of_nat k \<le> N" and "(of_nat k :: size_t) \<noteq> 0"
proof -
  show up: "unat (p + of_nat k) = unat p + k"
    using assms(4) by (rule unat_add_small)
  have "unat (of_nat k :: size_t) = k"
    using assms(4) unsigned_less [of N, where ?'a = nat] by (simp add: unat_of_nat)
  with assms(3) have nz: "\<not> (of_nat k :: size_t) \<le> 0" by (auto simp: word_le_nat_alt)
  then show "(of_nat k :: size_t) \<noteq> 0" by simp
  from nz assms(1,2) show "rw_buf_loop s buf N op p = rw_buf_loop s' buf' N op (p + of_nat k)"
    by (subst rw_buf_loop.simps) (simp add: Let_def)
  show "p + of_nat k \<le> N"
    using assms(4) by (simp add: word_le_nat_alt up)
qed

lemma read_loop_clean:
  assumes "rd_clean (rx s)" and "p \<le> N" and "unat N \<le> length buf"
  shows "case rw_buf_loop s buf N O_RDONLY p of (rc, buf', s') \<Rightarrow>
           wr s' = wr s \<and> tx s' = tx s \<and>
           (if unat N - unat p \<le> length (rd_bytes (rx s))
            then rc = 0 \<and>
                 buf' = take (unat p) buf @ take (unat N - unat p) (rd_bytes (rx s)) @ drop (unat N) buf \<and>
                 rd_bytes (rx s') = drop (unat N - unat p) (rd_bytes (rx s)) \<and> rd_clean (rx s')
            else rc = - EIO)"
  using assms
proof (induction s buf N "O_RDONLY" p rule: rw_buf_loop.induct)
  case (1 s buf N p)
  show ?case
  proof (cases "p < N")
    case False
    with 1(3) have "p = N" by simp
    with 1(2,4) show ?thesis by (simp add: rw_buf_loop_done)
  next
    case True
    then have cnt: "unat (N - p) = unat N - unat p" and pos: "0 < unat N - unat p"
      using 1(3) by (simp_all add: unat_sub word_less_nat_alt)
    have ok: "\<not> unaddressable buf (unat p) (unat (N - p))"
      using 1(4) pos by (intro addressable) (simp add: cnt)
    show ?thesis
    proof (cases "rx s")
      case Nil
      then have "rw_call s buf N O_RDONLY p = (0, buf, s)"
        using ok by (simp add: rw_call_def sys_read_def)
      then have "rw_buf_loop s buf N O_RDONLY p = (- EIO, buf, s)"
        using True by (subst rw_buf_loop.simps) simp
      with Nil pos show ?thesis by simp
    next
      case (Cons e es)
      with 1(2) obtain bs where e: "e = Data bs" and bs: "bs \<noteq> []" and es: "rd_clean es"
        by (cases e) auto
      define k where "k = min (unat N - unat p) (length bs)"
      define s' where "s' = s\<lparr>rx := (if k < length bs then Data (drop k bs) # es else es)\<rparr>"
      define buf' where "buf' = store buf (unat p) (take k bs)"
      define bytes where "bytes = rd_bytes (rx s)"
      have k: "0 < k" "k \<le> unat N - unat p" "k \<le> length bs" "unat p + k \<le> unat N"
        using pos bs by (simp_all add: k_def)
      have call: "rw_call s buf N O_RDONLY p = (int k, buf', s')"
        using Cons e ok by (simp add: rw_call_def sys_read_def cnt k_def s'_def buf'_def Let_def)
      note st = rw_step [OF True call k(1,4)]
      have lk: "length (take k bs) = k" using k(3) by simp
      have len': "unat N \<le> length buf'"
        using 1(4) k length_store [of "unat p" "take k bs" buf] by (simp add: buf'_def)
      have clean': "rd_clean (rx s')" using bs es k by (simp add: s'_def)
      have bytes': "rd_bytes (rx s') = drop k bytes"
        using Cons e k by (simp add: s'_def bytes_def)
      have kb: "k \<le> length bytes" using Cons e k by (simp add: bytes_def)
      have tk: "take k bs = take k bytes" using Cons e k by (simp add: bytes_def)
      have pre: "take (unat p + k) buf' = take (unat p) buf @ take k bytes"
        using take_store [of "unat p" buf "take k bs"] 1(4) k by (simp add: buf'_def lk tk [symmetric])
      have post: "drop (unat N) buf' = drop (unat N) buf"
        using drop_store [of "unat p" "take k bs" "unat N" buf] 1(4) k by (simp add: buf'_def lk)
      have ws: "wr s' = wr s" "tx s' = tx s" by (simp_all add: s'_def)
      have IH: "case rw_buf_loop s' buf' N O_RDONLY (p + of_nat k) of (rc, buf'', s'') \<Rightarrow>
           wr s'' = wr s' \<and> tx s'' = tx s' \<and>
           (if unat N - unat (p + of_nat k) \<le> length (rd_bytes (rx s'))
            then rc = 0 \<and>
                 buf'' = take (unat (p + of_nat k)) buf' @
                   take (unat N - unat (p + of_nat k)) (rd_bytes (rx s')) @ drop (unat N) buf' \<and>
                 rd_bytes (rx s'') = drop (unat N - unat (p + of_nat k)) (rd_bytes (rx s')) \<and>
                 rd_clean (rx s'')
            else rc = - EIO)"
        using 1(1) [of "int k" "(buf', s')" buf' s' "of_nat k"] True call st(3,4) clean' len' k(1)
        by simp
      have cond: "(unat N - (unat p + k) \<le> length bytes - k) = (unat N - unat p \<le> length bytes)"
        using k kb by auto
      have a1: "unat N - (unat p + k) + k = unat N - unat p" using k(2) by simp
      have a2: "take k bytes @ take (unat N - (unat p + k)) (drop k bytes) = take (unat N - unat p) bytes"
        using take_take_drop [OF k(2), of bytes] by (simp add: diff_diff_left [symmetric] del: diff_diff_left)
      obtain rc b2 s2 where res: "rw_buf_loop s' buf' N O_RDONLY (p + of_nat k) = (rc, b2, s2)"
        by (cases "rw_buf_loop s' buf' N O_RDONLY (p + of_nat k)")
      show ?thesis
        using IH unfolding st(1) res st(2) bytes' bytes_def [symmetric]
        by (auto simp: cond pre post a1 a2 [symmetric] ws)
    qed
  qed
qed


lemma wr_clean_tl: "wr_clean es \<Longrightarrow> wr_clean (tl es)"
  by (induction es rule: wr_clean.induct) simp_all

lemma write_loop_clean:
  assumes "wr_clean (wr s)" and "p \<le> N" and "unat N \<le> length buf"
  shows "case rw_buf_loop s buf N O_WRONLY p of (rc, buf', s') \<Rightarrow>
           rc = 0 \<and> buf' = buf \<and> tx s' = tx s @ take (unat N - unat p) (drop (unat p) buf) \<and>
           wr_clean (wr s') \<and> rx s' = rx s"
  using assms
proof (induction s buf N "O_WRONLY" p rule: rw_buf_loop.induct)
  case (1 s buf N p)
  show ?case
  proof (cases "p < N")
    case False
    with 1(3) have "p = N" by simp
    with 1(2) show ?thesis by (simp add: rw_buf_loop_done)
  next
    case True
    then have cnt: "unat (N - p) = unat N - unat p" and pos: "0 < unat N - unat p"
      using 1(3) by (simp_all add: unat_sub word_less_nat_alt)
    have ok: "\<not> unaddressable buf (unat p) (unat (N - p))"
      using 1(4) pos by (intro addressable) (simp add: cnt)
    define k where "k = (case wr s of [] \<Rightarrow> unat N - unat p | Accept a # es \<Rightarrow> min (unat N - unat p) a | _ \<Rightarrow> 0)"
    define s' where "s' = s\<lparr>wr := tl (wr s), tx := tx s @ take k (drop (unat p) buf)\<rparr>"
    have k: "0 < k" "k \<le> unat N - unat p" "unat p + k \<le> unat N"
      using pos 1(2) by (auto simp: k_def split: list.splits wr_event.splits)
    have call: "rw_call s buf N O_WRONLY p = (int k, buf, s')"
      using 1(2) ok
      by (auto simp: rw_call_def sys_write_def cnt k_def s'_def Let_def O_WRONLY_def O_RDONLY_def
          split: list.splits wr_event.splits)
    note st = rw_step [OF True call k(1,3)]
    have clean': "wr_clean (wr s')"
      using 1(2) by (simp add: s'_def wr_clean_tl)
    have IH: "case rw_buf_loop s' buf N O_WRONLY (p + of_nat k) of (rc, buf', s'') \<Rightarrow>
           rc = 0 \<and> buf' = buf \<and>
           tx s'' = tx s' @ take (unat N - unat (p + of_nat k)) (drop (unat (p + of_nat k)) buf) \<and>
           wr_clean (wr s'') \<and> rx s'' = rx s'"
      using 1(1) [of "int k" "(buf, s')" buf s' "of_nat k"] True call st(3,4) clean' 1(4)
      by simp
    have d1: "unat N - (unat p + k) = unat N - unat p - k" by simp
    have d2: "drop (unat p + k) buf = drop k (drop (unat p) buf)" by (simp add: add.commute)
    have a2: "take k (drop (unat p) buf) @ take (unat N - (unat p + k)) (drop (unat p + k) buf) =
        take (unat N - unat p) (drop (unat p) buf)"
      unfolding d1 d2 using k(2) by (rule take_take_drop)
    obtain rc b2 s2 where res: "rw_buf_loop s' buf N O_WRONLY (p + of_nat k) = (rc, b2, s2)"
      by (cases "rw_buf_loop s' buf N O_WRONLY (p + of_nat k)")
    show ?thesis
      using IH unfolding st(1) res st(2)
      by (auto simp: a2 s'_def)
  qed
qed

lemma read_buf_clean:
  assumes "rd_clean (rx s)" and "rd_bytes (rx s) = bs @ rest" and "length bs = unat n"
    and "unat n \<le> length buf"
  shows "\<exists>s'. attest_util_read_buf s buf n = (0, bs @ drop (unat n) buf, s') \<and>
              rd_clean (rx s') \<and> rd_bytes (rx s') = rest \<and> wr s' = wr s \<and> tx s' = tx s"
  using read_loop_clean [OF assms(1) _ assms(4), of 0] assms(2,3)
  by (auto simp: attest_util_read_buf_def attest_util_rw_buf_def split: prod.splits)

lemma write_buf_clean:
  assumes "wr_clean (wr s)" and "unat n \<le> length buf"
  shows "\<exists>s'. attest_util_write_buf s buf n = (0, buf, s') \<and>
              tx s' = tx s @ take (unat n) buf \<and> wr_clean (wr s') \<and> rx s' = rx s"
  using write_loop_clean [OF assms(1) _ assms(2), of 0]
  by (auto simp: attest_util_write_buf_def attest_util_rw_buf_def split: prod.splits)



text \<open>The function returns \<open>0\<close> or \<open>-EIO\<close>, nothing else.\<close>

lemma rw_buf_loop_rc:
  "rw_buf_loop s buf N op p = (rc, buf', s') \<Longrightarrow> rc = 0 \<or> rc = - EIO"
proof (induction s buf N op p arbitrary: rc buf' s' rule: rw_buf_loop.induct)
  case (1 s buf N op p)
  show ?case
  proof (cases "p < N")
    case False
    with 1(2) show ?thesis by (subst (asm) rw_buf_loop.simps) simp
  next
    case True
    obtain r b1 s1 where call: "rw_call s buf N op p = (r, b1, s1)"
      by (cases "rw_call s buf N op p")
    show ?thesis
    proof (cases "(word_of_int r :: size_t) \<le> 0")
      case True
      with \<open>p < N\<close> call 1(2) show ?thesis
        by (subst (asm) rw_buf_loop.simps) (simp add: Let_def)
    next
      case False
      with \<open>p < N\<close> call 1(2)
      have "rw_buf_loop s1 b1 N op (p + word_of_int r) = (rc, buf', s')"
        by (subst (asm) rw_buf_loop.simps) (simp add: Let_def)
      with 1(1) [of r "(b1, s1)" b1 s1 "word_of_int r"] \<open>p < N\<close> call False
      show ?thesis by simp
    qed
  qed
qed

lemma read_buf_rc:
  "attest_util_read_buf s buf n = (rc, buf', s') \<Longrightarrow> rc = 0 \<or> rc = - EIO"
  unfolding attest_util_read_buf_def attest_util_rw_buf_def by (rule rw_buf_loop_rc)

text \<open>A transfer whose count exceeds \<open>SSIZE_MAX\<close> and the block: the kernel refuses the
  first call, the loop takes the \<open>-1\<close> for \<open>SIZE_MAX\<close> bytes transferred and ends, and
  the function returns \<open>0\<close> with nothing transferred.\<close>

lemma rw_buf_refused:
  assumes "SSIZE_MAX < int (unat n)" and "length buf < unat n"
  shows "attest_util_rw_buf s buf n op = (0, buf, s)"
proof -
  have pos: "0 < n" using assms(2) by (simp add: word_less_nat_alt)
  have "unaddressable buf (unat (0 :: size_t)) (unat (n - 0))"
    using assms by (simp add: unaddressable_def)
  then have call: "rw_call s buf n op 0 = (- 1, buf, s)"
    by (simp add: rw_call_def sys_read_def sys_write_def)
  have last: "rw_buf_loop s buf n op (- 1) = (0, buf, s)"
    by (subst rw_buf_loop.simps) (simp add: not_less)
  show ?thesis
    unfolding attest_util_rw_buf_def
    by (subst rw_buf_loop.simps) (simp add: pos call last Let_def)
qed

lemma length_size_t_bytes [simp]: "length (size_t_bytes w) = 8"
  by (simp add: size_t_bytes_def)

lemma length_int_bytes [simp]: "length (int_bytes w) = 4"
  by (simp add: int_bytes_def)

lemma bytes_size_t_inverse [simp]: "bytes_size_t (size_t_bytes w) = w"
proof -
  have "unat w < 256 ^ 8" using unsigned_less [of w, where ?'a = nat] by simp
  then show ?thesis by (simp add: bytes_size_t_def size_t_bytes_def le_val_le_bytes)
qed

lemma bytes_int_inverse [simp]: "bytes_int (int_bytes w) = w"
proof -
  have "unat w < 256 ^ 4" using unsigned_less [of w, where ?'a = nat] by simp
  then show ?thesis by (simp add: bytes_int_def int_bytes_def le_val_le_bytes)
qed

lemma incoming_rx [simp]: "rx (s\<lparr>tx := t\<rparr>) = rx s" by simp

lemma send_request_ok:
  assumes "wr s = []" and "length (c_string m) < 2 ^ 64 - 16"
  shows "send_request s op m =
           (0, of_nat (length (c_string m)) + 16,
            s\<lparr>tx := tx s @ size_t_bytes (of_nat (length (c_string m)) + 16) @ int_bytes op @ c_string m\<rparr>)"
proof -
  define L where "L = length (c_string m)"
  define tlen :: size_t where "tlen = of_nat L + 16"
  define s1 where "s1 = s\<lparr>tx := tx s @ size_t_bytes tlen\<rparr>"
  define s2 where "s2 = s1\<lparr>tx := tx s1 @ int_bytes op\<rparr>"
  have w1: "attest_util_write_buf s (size_t_bytes tlen) 8 = (0, size_t_bytes tlen, s1)"
    using write_buf_ok [of s 8 "size_t_bytes tlen"] assms(1)
    by (simp add: s1_def)
  have w2: "attest_util_write_buf s1 (int_bytes op) 4 = (0, int_bytes op, s2)"
    using write_buf_ok [of s1 4 "int_bytes op"] assms(1)
    by (simp add: s1_def s2_def)
  have Lm: "L \<le> length m" unfolding L_def c_string_def by (rule length_takeWhile_le)
  have tk: "take L m = c_string m"
    unfolding L_def c_string_def by (rule takeWhile_eq_take [symmetric])
  have w3: "attest_util_write_buf s2 m (of_nat L) = (0, m, s2\<lparr>tx := tx s2 @ c_string m\<rparr>)"
    using write_buf_ok [of s2 L m] assms Lm tk
    by (simp add: s1_def s2_def L_def)
  have len: "strlen m + 8 * 2 = tlen" "tlen - 8 * 2 = of_nat L"
    by (simp_all add: strlen_def tlen_def L_def)
  show ?thesis
    unfolding send_request_def Let_def sizeof_size_t_def sizeof_int_def len
    by (simp add: w1 w2 w3) (simp add: s1_def s2_def tlen_def L_def)
qed

lemma read_request_ok:
  assumes "rx s = incoming (size_t_bytes tlen @ int_bytes opc @ payload @ rest)"
    and "length payload = unat (tlen - 16)"
    and "malloc (tlen - 16 + 1) = Some buf" and "length buf = unat (tlen - 16) + 1"
  shows "read_request malloc len0 op0 s =
           (Request (payload @ [0]), tlen - 16, opc, s\<lparr>rx := incoming rest\<rparr>)"
proof -
  define n where "n = unat (tlen - 16)"
  have n: "n < 2 ^ 64" "of_nat n = tlen - 16"
    using unsigned_less [of "tlen - 16", where ?'a = nat] by (simp_all add: n_def)
  define s1 where "s1 = s\<lparr>rx := incoming (int_bytes opc @ payload @ rest)\<rparr>"
  define s2 where "s2 = s\<lparr>rx := incoming (payload @ rest)\<rparr>"
  have r1: "attest_util_read_buf s (size_t_bytes len0) 8 = (0, size_t_bytes tlen, s1)"
    using read_buf_ok [of s "size_t_bytes tlen @ int_bytes opc @ payload @ rest" 8 "size_t_bytes len0"] assms(1)
    by (simp add: s1_def)
  have r2: "attest_util_read_buf s1 (int_bytes op0) 4 = (0, int_bytes opc, s2)"
    using read_buf_ok [of s1 "int_bytes opc @ payload @ rest" 4 "int_bytes op0"]
    by (simp add: s1_def s2_def)
  have r3: "attest_util_read_buf s2 (buf[n := 0]) (of_nat n) = (0, payload @ [0], s\<lparr>rx := incoming rest\<rparr>)"
  proof -
    have "drop n (buf[n := 0]) = [0]"
      using assms(4) by (simp add: n_def [symmetric] drop_update_cancel [symmetric] Cons_nth_drop_Suc [symmetric] del: drop_update_cancel)
    then show ?thesis
      using read_buf_ok [of s2 "payload @ rest" n "buf[n := 0]"] assms(2,4) n(1)
      by (simp add: s2_def n_def [symmetric])
  qed
  have m: "malloc (of_nat n + 1) = Some buf" using assms(3) n(2) by simp
  have un: "unat (of_nat n :: size_t) = n" using n(1) by (simp add: unat_of_nat)
  show ?thesis
    unfolding read_request_def sizeof_size_t_def sizeof_int_def
    by (simp add: r1 r2 Let_def m un r3 n(2) [symmetric])
qed

section \<open>Properties of the request frame and of the server's answer\<close>

lemma c_string_terminated: "0 \<notin> set payload \<Longrightarrow> c_string (payload @ [0]) = payload"
  by (induction payload) (auto simp: c_string_def)

lemma le_bytes_0: "le_bytes n 0 = replicate n 0"
  by (induction n) simp_all

lemma size_t_bytes_0: "size_t_bytes 0 = replicate 8 0"
  by (simp add: size_t_bytes_def le_bytes_0)

lemma response_error:
  assumes "wr s = []"
  shows "response s 0 message_out = (Continue, s\<lparr>tx := tx s @ replicate 8 0\<rparr>)"
  using write_buf_ok [of s 8 "size_t_bytes 0"] assms
  by (simp add: response_def sizeof_size_t_def size_t_bytes_0)

lemma dispatch_unknown:
  "op \<notin> {0, 1, 2, 3, 4} \<Longrightarrow> dispatch h op message_in = (- EINVAL, [])"
  by (simp add: dispatch_def)

lemma serve_connection_failed:
  assumes "read_request malloc len0 op0 s = (Request m, len, op, s1)" and "wr s1 = []"
    and "fst (dispatch h op (c_string m)) \<noteq> 0"
  shows "serve_connection h malloc len0 op0 s = (Continue, 0, op, s1\<lparr>tx := tx s1 @ replicate 8 0\<rparr>)"
proof -
  obtain rc message_out where d: "dispatch h op (c_string m) = (rc, message_out)"
    by (cases "dispatch h op (c_string m)")
  with assms(3) have "rc \<noteq> 0" by simp
  with d assms(1) show ?thesis
    by (simp add: serve_connection_def response_error [OF assms(2)])
qed

text \<open>
  Claim C5, as amended.  The length field counts the payload and sixteen bytes, twice
  \<open>sizeof(size_t)\<close>, although the header on the wire has twelve.  On a socket that
  accepts every write the client sends the length of the string plus 16, the opcode
  and the string without its terminator.  The server, given a frame whose length
  field is \<open>tlen\<close>, reads \<open>tlen - 16\<close> bytes of payload after the length and the
  opcode, terminates them with a zero byte and leaves what follows unread.
\<close>

theorem frame_payload_length:
  assumes "wr c = []" and "length (c_string m) < 2 ^ 64 - 16"
    and "rx s = incoming (size_t_bytes tlen @ int_bytes opc @ payload @ rest)"
    and "length payload = unat (tlen - 16)"
    and "malloc (tlen - 16 + 1) = Some buf" and "length buf = unat (tlen - 16) + 1"
  shows "send_request c op m =
           (0, of_nat (length (c_string m)) + 16,
            c\<lparr>tx := tx c @ size_t_bytes (of_nat (length (c_string m)) + 16) @ int_bytes op @ c_string m\<rparr>) \<and>
         read_request malloc len0 op0 s =
           (Request (payload @ [0]), tlen - 16, opc, s\<lparr>rx := incoming rest\<rparr>)"
  using send_request_ok [of c m op] read_request_ok [of s tlen opc payload rest malloc buf len0 op0] assms
  by simp

theorem frame_payload_length_witness:
  "send_request (peer []) 1 [65, 66, 0] =
     (0, 18, \<lparr>rx = [], wr = [], tx = [18, 0, 0, 0, 0, 0, 0, 0, 1, 0, 0, 0, 65, 66]\<rparr>) \<and>
   read_request (heap 4096) 0 0 (peer [18, 0, 0, 0, 0, 0, 0, 0, 1, 0, 0, 0, 65, 66, 7]) =
     (Request [65, 66, 0], 2, 1, peer [7])"
proof -
  have a: "wr (peer []) = []" by (simp add: peer_def)
  have b: "length (c_string [65, 66, 0]) < 2 ^ 64 - 16" by (simp add: c_string_def)
  have c: "rx (peer [18, 0, 0, 0, 0, 0, 0, 0, 1, 0, 0, 0, 65, 66, 7]) =
      incoming (size_t_bytes 18 @ int_bytes 1 @ [65, 66] @ [7])"
    by code_simp
  have d: "length [65 :: u8, 66] = unat ((18 :: size_t) - 16)" by simp
  have e: "heap 4096 ((18 :: size_t) - 16 + 1) = Some (replicate 3 0)" by (simp add: heap_def)
  have f: "length (replicate 3 (0 :: u8)) = unat ((18 :: size_t) - 16) + 1" by simp
  have g: "size_t_bytes 18 @ int_bytes 1 @ c_string [65, 66, 0] = [18, 0, 0, 0, 0, 0, 0, 0, 1, 0, 0, 0, 65, 66]"
    by code_simp
  show ?thesis
    using frame_payload_length [where c = "peer []" and m = "[65, 66, 0]" and op = 1
        and s = "peer [18, 0, 0, 0, 0, 0, 0, 0, 1, 0, 0, 0, 65, 66, 7]" and tlen = 18 and opc = 1
        and payload = "[65, 66]" and rest = "[7]" and malloc = "heap 4096"
        and buf = "replicate 3 0" and ?len0.0 = 0 and ?op0.0 = 0, OF a b c d e f] g
    by (simp add: peer_def incoming_def c_string_def)
qed

text \<open>
  Claim C5 as stated fails.  For the payload \<open>A\<close> of one byte the client sends the
  length 17, not 1 + 12; and of a frame with length 17 the server takes one byte as
  payload, not 17 - 12.
\<close>

theorem frame_payload_length_counterexample:
  "send_request (peer []) 1 [65, 0] =
     (0, 17, \<lparr>rx = [], wr = [], tx = [17, 0, 0, 0, 0, 0, 0, 0, 1, 0, 0, 0, 65]\<rparr>) \<and>
   (17 :: size_t) \<noteq> 1 + 12 \<and>
   read_request (heap 4096) 0 0 (peer [17, 0, 0, 0, 0, 0, 0, 0, 1, 0, 0, 0, 65, 66, 67, 68, 69]) =
     (Request [65, 0], 1, 1, peer [66, 67, 68, 69])"
  by code_simp

text \<open>The same on sockets that take and deliver the bytes in pieces: the states in
  between depend on the pieces, the results do not.\<close>

lemma send_request_clean:
  assumes "wr_clean (wr s)" and "length (c_string m) < 2 ^ 64 - 16"
  shows "\<exists>s'. send_request s op m = (0, of_nat (length (c_string m)) + 16, s') \<and>
              tx s' = tx s @ size_t_bytes (of_nat (length (c_string m)) + 16) @ int_bytes op @ c_string m \<and>
              wr_clean (wr s') \<and> rx s' = rx s"
proof -
  define L where "L = length (c_string m)"
  define tlen :: size_t where "tlen = of_nat L + 16"
  have L: "unat (of_nat L :: size_t) = L" using assms(2) by (simp add: L_def unat_of_nat)
  have Lm: "L \<le> length m" unfolding L_def c_string_def by (rule length_takeWhile_le)
  have tk: "take L m = c_string m"
    unfolding L_def c_string_def by (rule takeWhile_eq_take [symmetric])
  obtain s1 where w1: "attest_util_write_buf s (size_t_bytes tlen) 8 = (0, size_t_bytes tlen, s1)"
    and s1: "tx s1 = tx s @ size_t_bytes tlen" "wr_clean (wr s1)" "rx s1 = rx s"
    using write_buf_clean [OF assms(1), of 8 "size_t_bytes tlen"] by auto
  obtain s2 where w2: "attest_util_write_buf s1 (int_bytes op) 4 = (0, int_bytes op, s2)"
    and s2: "tx s2 = tx s1 @ int_bytes op" "wr_clean (wr s2)" "rx s2 = rx s1"
    using write_buf_clean [OF s1(2), of 4 "int_bytes op"] by auto
  obtain s3 where w3: "attest_util_write_buf s2 m (of_nat L) = (0, m, s3)"
    and s3: "tx s3 = tx s2 @ c_string m" "wr_clean (wr s3)" "rx s3 = rx s2"
    using write_buf_clean [OF s2(2), of "of_nat L" m] Lm by (auto simp: L tk)
  have len: "strlen m + 8 * 2 = tlen" "tlen - 8 * 2 = of_nat L"
    by (simp_all add: strlen_def tlen_def L_def)
  have "send_request s op m = (0, tlen, s3)"
    unfolding send_request_def Let_def sizeof_size_t_def sizeof_int_def len
    by (simp add: w1 w2 w3)
  with s1 s2 s3 show ?thesis
    by (auto simp: tlen_def L_def)
qed

lemma read_request_clean:
  assumes "rd_clean (rx s)" and "rd_bytes (rx s) = size_t_bytes tlen @ int_bytes opc @ payload @ rest"
    and "length payload = unat (tlen - 16)"
    and "malloc (tlen - 16 + 1) = Some buf" and "length buf = unat (tlen - 16) + 1"
  shows "\<exists>s'. read_request malloc len0 op0 s = (Request (payload @ [0]), tlen - 16, opc, s') \<and>
              rd_clean (rx s') \<and> rd_bytes (rx s') = rest \<and> wr s' = wr s \<and> tx s' = tx s"
proof -
  define n where "n = unat (tlen - 16)"
  obtain s1 where r1: "attest_util_read_buf s (size_t_bytes len0) 8 = (0, size_t_bytes tlen, s1)"
    and s1: "rd_clean (rx s1)" "rd_bytes (rx s1) = int_bytes opc @ payload @ rest"
      "wr s1 = wr s" "tx s1 = tx s"
    using read_buf_clean [OF assms(1,2), of 8 "size_t_bytes len0"] by auto
  obtain s2 where r2: "attest_util_read_buf s1 (int_bytes op0) 4 = (0, int_bytes opc, s2)"
    and s2: "rd_clean (rx s2)" "rd_bytes (rx s2) = payload @ rest" "wr s2 = wr s1" "tx s2 = tx s1"
    using read_buf_clean [OF s1(1,2), of 4 "int_bytes op0"] by auto
  have last: "drop n (buf[n := 0]) = [0]"
    using assms(5)
    by (simp add: n_def [symmetric] drop_update_cancel [symmetric] Cons_nth_drop_Suc [symmetric]
        del: drop_update_cancel)
  obtain s3 where r3: "attest_util_read_buf s2 (buf[n := 0]) (tlen - 16) = (0, payload @ [0], s3)"
    and s3: "rd_clean (rx s3)" "rd_bytes (rx s3) = rest" "wr s3 = wr s2" "tx s3 = tx s2"
    using read_buf_clean [OF s2(1,2), of "tlen - 16" "buf[n := 0]"] assms(3,5) last
    by (auto simp: n_def)
  have "read_request malloc len0 op0 s = (Request (payload @ [0]), tlen - 16, opc, s3)"
    unfolding read_request_def sizeof_size_t_def sizeof_int_def
    using assms(4) by (simp add: r1 r2 Let_def n_def [symmetric] r3)
  with s1 s2 s3 show ?thesis by auto
qed

lemma rd_clean_empty: "rd_clean es \<Longrightarrow> rd_bytes es = [] \<Longrightarrow> es = []"
  by (induction es rule: rd_clean.induct) simp_all

text \<open>
  Claim C9.  For every opcode and every payload (a string: no zero byte in it) the
  client writes a frame from which the server reads back the same opcode and the
  same payload.  The kernel may accept the client's bytes in pieces of any size, and
  the frame may reach the server in chunks of any size: both sides repeat their
  calls until the transfer is complete.  \<open>malloc\<close> gives the server its buffer.
  The payload may have any length up to \<open>2^64 - 17\<close>, among them 0, 1, 4095 and
  \<open>2^20\<close>.
\<close>

theorem frame_round_trip:
  assumes "0 \<notin> set payload" and "length payload < 2 ^ 64 - 16"
    and "wr_clean (wr c)" and "tx c = []"
    and "rd_clean (rx s)" and "rd_bytes (rx s) = tx (snd (snd (send_request c op (payload @ [0]))))"
    and "malloc (of_nat (length payload) + 1) = Some buf" and "length buf = length payload + 1"
  shows "fst (send_request c op (payload @ [0])) = 0 \<and>
         read_request malloc len0 op0 s =
           (Request (payload @ [0]), of_nat (length payload), op, s\<lparr>rx := []\<rparr>) \<and>
         c_string (payload @ [0]) = payload"
proof -
  define tlen :: size_t where "tlen = of_nat (length payload) + 16"
  have cs: "c_string (payload @ [0]) = payload" using assms(1) by (rule c_string_terminated)
  obtain c' where snd: "send_request c op (payload @ [0]) = (0, tlen, c')"
    and sent: "tx c' = size_t_bytes tlen @ int_bytes op @ payload"
    using send_request_clean [OF assms(3), of "payload @ [0]" op] assms(2,4)
    by (auto simp: cs tlen_def)
  have un: "unat (tlen - 16) = length payload"
    using assms(2) by (simp add: tlen_def unat_of_nat)
  have bytes: "rd_bytes (rx s) = size_t_bytes tlen @ int_bytes op @ payload @ []"
    using assms(6) by (simp add: snd sent)
  obtain s' where rd: "read_request malloc len0 op0 s = (Request (payload @ [0]), tlen - 16, op, s')"
    and s': "rd_clean (rx s')" "rd_bytes (rx s') = []" "wr s' = wr s" "tx s' = tx s"
    using read_request_clean [OF assms(5) bytes, of malloc buf len0 op0] assms(7,8) un
    by (auto simp: tlen_def)
  from s'(1,2) have "rx s' = []" by (rule rd_clean_empty)
  with s'(3,4) have "s' = s\<lparr>rx := []\<rparr>" by simp
  with rd snd cs show ?thesis by (simp add: tlen_def)
qed

theorem frame_round_trip_witness:
  "0 \<notin> set [65 :: u8, 66, 67] \<and>
   send_request \<lparr>rx = [], wr = [Accept 3, Accept 1, Accept 9, Accept 2], tx = []\<rparr> 1 ([65, 66, 67] @ [0]) =
     (0, 19, \<lparr>rx = [], wr = [], tx = [19, 0, 0, 0, 0, 0, 0, 0, 1, 0, 0, 0, 65, 66, 67]\<rparr>) \<and>
   read_request (heap 4096) 0 0
       \<lparr>rx = [Data [19, 0, 0], Data [0, 0, 0, 0, 0, 1, 0], Data [0, 0, 65], Data [66], Data [67]],
        wr = [], tx = []\<rparr> =
     (Request ([65, 66, 67] @ [0]), 3, 1, \<lparr>rx = [], wr = [], tx = []\<rparr>) \<and>
   c_string ([65 :: u8, 66, 67] @ [0]) = [65, 66, 67]"
proof -
  define c :: sock where "c = \<lparr>rx = [], wr = [Accept 3, Accept 1, Accept 9, Accept 2], tx = []\<rparr>"
  define s :: sock where
    "s = \<lparr>rx = [Data [19, 0, 0], Data [0, 0, 0, 0, 0, 1, 0], Data [0, 0, 65], Data [66], Data [67]],
          wr = [], tx = []\<rparr>"
  have snd: "send_request c 1 ([65, 66, 67] @ [0]) =
      (0, 19, \<lparr>rx = [], wr = [], tx = [19, 0, 0, 0, 0, 0, 0, 0, 1, 0, 0, 0, 65, 66, 67]\<rparr>)"
    unfolding c_def by code_simp
  have a: "0 \<notin> set [65 :: u8, 66, 67]" by simp
  have b: "length [65 :: u8, 66, 67] < 2 ^ 64 - 16" by simp
  have c: "wr_clean (wr c)" and d: "tx c = []" by (simp_all add: c_def)
  have e: "rd_clean (rx s)" by (simp add: s_def)
  have f: "rd_bytes (rx s) = tx (snd (snd (send_request c 1 ([65, 66, 67] @ [0]))))"
    using snd by (simp add: s_def)
  have g: "heap 4096 (of_nat (length [65 :: u8, 66, 67]) + 1) = Some (replicate 4 0)"
    by (simp add: heap_def)
  have h: "length (replicate 4 (0 :: u8)) = length [65 :: u8, 66, 67] + 1" by simp
  show ?thesis
    using frame_round_trip [where payload = "[65, 66, 67]" and c = c and s = s and malloc = "heap 4096"
        and buf = "replicate 4 0" and op = 1 and ?len0.0 = 0 and ?op0.0 = 0, OF a b c d e f g h] a snd
    by (simp add: c_def s_def)
qed

text \<open>
  Claim C4.  A request has arrived in full and its buffer has been allocated.  If
  its opcode is none of 0 to 4, or if the handler of its opcode fails, then the
  server writes eight zero bytes, the length field 0, and no payload: the same
  bytes whatever the handler returned and whatever it stored as its output.  The
  socket accepts the server's writes.
\<close>

theorem failed_handler_response:
  assumes "rx s = incoming (size_t_bytes tlen @ int_bytes opc @ payload @ rest)" and "wr s = []"
    and "length payload = unat (tlen - 16)"
    and "malloc (tlen - 16 + 1) = Some buf" and "length buf = unat (tlen - 16) + 1"
    and "opc \<notin> {0, 1, 2, 3, 4} \<or> fst (dispatch h opc (c_string (payload @ [0]))) \<noteq> 0"
  shows "serve_connection h malloc len0 op0 s =
           (Continue, 0, opc, s\<lparr>rx := incoming rest, tx := tx s @ replicate 8 0\<rparr>)"
proof -
  have rd: "read_request malloc len0 op0 s =
      (Request (payload @ [0]), tlen - 16, opc, s\<lparr>rx := incoming rest\<rparr>)"
    using assms(1,3,4,5) by (rule read_request_ok)
  have fails: "fst (dispatch h opc (c_string (payload @ [0]))) \<noteq> 0"
    using assms(6) dispatch_unknown [of opc h "c_string (payload @ [0])"]
    by (auto simp: EINVAL_def)
  have w: "wr (s\<lparr>rx := incoming rest\<rparr>) = []" using assms(2) by simp
  show ?thesis
    using serve_connection_failed [OF rd w fails] by simp
qed

lemma zeros8: "replicate 8 (0 :: u8) = [0, 0, 0, 0, 0, 0, 0, 0]"
  by code_simp

theorem failed_handler_response_witness:
  "serve_connection refusing (heap 4096) 0 0 (peer [17, 0, 0, 0, 0, 0, 0, 0, 9, 0, 0, 0, 65]) =
     (Continue, 0, 9, \<lparr>rx = [], wr = [], tx = [0, 0, 0, 0, 0, 0, 0, 0]\<rparr>) \<and>
   serve_connection refusing (heap 4096) 0 0 (peer [17, 0, 0, 0, 0, 0, 0, 0, 1, 0, 0, 0, 65]) =
     (Continue, 0, 1, \<lparr>rx = [], wr = [], tx = [0, 0, 0, 0, 0, 0, 0, 0]\<rparr>) \<and>
   fst (dispatch refusing 1 (c_string ([65] @ [0]))) \<noteq> 0"
proof -
  have a: "rx (peer [17, 0, 0, 0, 0, 0, 0, 0, x, 0, 0, 0, 65]) =
      incoming (size_t_bytes 17 @ int_bytes (ucast x) @ [65] @ [])" if "x = 9 \<or> x = 1" for x :: u8
    using that by (auto simp: peer_def) code_simp+
  have b: "wr (peer bs) = []" for bs by (simp add: peer_def)
  have c: "length [65 :: u8] = unat ((17 :: size_t) - 16)" by simp
  have d: "heap 4096 ((17 :: size_t) - 16 + 1) = Some (replicate 2 0)" by (simp add: heap_def)
  have e: "length (replicate 2 (0 :: u8)) = unat ((17 :: size_t) - 16) + 1" by simp
  have f: "(9 :: c_int) \<notin> {0, 1, 2, 3, 4} \<or> fst (dispatch refusing 9 (c_string ([65] @ [0]))) \<noteq> 0"
    by simp
  have g: "fst (dispatch refusing 1 (c_string ([65] @ [0]))) \<noteq> 0"
    by (simp add: dispatch_def refusing_def EINVAL_def)
  then have g': "(1 :: c_int) \<notin> {0, 1, 2, 3, 4} \<or> fst (dispatch refusing 1 (c_string ([65] @ [0]))) \<noteq> 0"
    by simp
  show ?thesis
    using failed_handler_response [where s = "peer [17, 0, 0, 0, 0, 0, 0, 0, 9, 0, 0, 0, 65]"
        and tlen = 17 and opc = 9 and payload = "[65]" and rest = "[]" and malloc = "heap 4096"
        and buf = "replicate 2 0" and h = refusing and ?len0.0 = 0 and ?op0.0 = 0, OF _ b c d e f]
      failed_handler_response [where s = "peer [17, 0, 0, 0, 0, 0, 0, 0, 1, 0, 0, 0, 65]"
        and tlen = 17 and opc = 1 and payload = "[65]" and rest = "[]" and malloc = "heap 4096"
        and buf = "replicate 2 0" and h = refusing and ?len0.0 = 0 and ?op0.0 = 0, OF _ b c d e g']
      a [of 9] a [of 1] g
    by (simp add: peer_def incoming_def zeros8)
qed

section \<open>Properties of the accept loop\<close>

lemma free_result:
  "free v p = (if p v = Freed then None else Some (p(v := if p v = Null then Null else Freed)))"
  by (cases "p v") (auto simp: free_def)

lemma out_free_result: "out_free p = (if stale p then None else Some (released p))"
proof (cases "stale p")
  case True
  then show ?thesis
    by (auto simp: out_free_def free_result stale_def)
next
  case False
  then have "out_free p = Some (\<lambda>v. if p v = Null then Null else Freed)"
    by (simp add: out_free_def free_result stale_def fun_eq_iff) (metis variable.exhaust)
  with False show ?thesis by (simp add: released_def fun_eq_iff)
qed






lemma read_request_no_memory:
  assumes "rx s = incoming (size_t_bytes tlen @ int_bytes opc @ rest)"
    and "malloc (tlen - 16 + 1) = None"
  shows "read_request malloc len0 op0 s = (No_memory, 0, opc, s\<lparr>rx := incoming rest\<rparr>)"
proof -
  define s1 where "s1 = s\<lparr>rx := incoming (int_bytes opc @ rest)\<rparr>"
  have r1: "attest_util_read_buf s (size_t_bytes len0) 8 = (0, size_t_bytes tlen, s1)"
    using read_buf_ok [of s "size_t_bytes tlen @ int_bytes opc @ rest" 8 "size_t_bytes len0"] assms(1)
    by (simp add: s1_def)
  have r2: "attest_util_read_buf s1 (int_bytes op0) 4 = (0, int_bytes opc, s\<lparr>rx := incoming rest\<rparr>)"
    using read_buf_ok [of s1 "int_bytes opc @ rest" 4 "int_bytes op0"]
    by (simp add: s1_def)
  show ?thesis
    unfolding read_request_def sizeof_size_t_def sizeof_int_def
    using assms(2) by (simp add: r1 r2 Let_def)
qed

text \<open>
  The pointers are stale on the way through \<open>goto response\<close> as well.  The first
  request is answered by its handler, and \<open>message_out\<close> is freed.  For the second
  request \<open>malloc\<close> refuses the buffer: the server writes the error response and
  then frees \<open>message_out\<close> again.
\<close>

lemma accept_loop_refused_malloc_example:
  "accept_loop 0 0 initial
     [Connected refusing {} (heap 4096) (peer [17, 0, 0, 0, 0, 0, 0, 0, 3, 0, 0, 0, 65]),
      Connected refusing {} (heap 4096) (peer [8, 0, 0, 0, 0, 0, 0, 0, 3, 0, 0, 0])] =
     ([\<lparr>rx = [], wr = [], tx = [14, 0, 0, 0, 0, 0, 0, 0, 110, 111, 110, 99, 101, 0]\<rparr>,
       \<lparr>rx = [], wr = [], tx = [0, 0, 0, 0, 0, 0, 0, 0]\<rparr>], Double_free)"
proof -
  define S1 where "S1 = peer [17, 0, 0, 0, 0, 0, 0, 0, 3, 0, 0, 0, 65]"
  define S2 where "S2 = peer [8, 0, 0, 0, 0, 0, 0, 0, 3, 0, 0, 0]"
  define b1 where "b1 = buffers refusing {} (heap 4096) 0 0 S1 initial"
  have q1: "read_request (heap 4096) 0 0 S1 = (Request [65, 0], 1, 3, peer [])"
    unfolding S1_def by code_simp
  have r1: "serve_connection refusing (heap 4096) 0 0 S1 =
      (Continue, 14, 3, \<lparr>rx = [], wr = [], tx = [14, 0, 0, 0, 0, 0, 0, 0, 110, 111, 110, 99, 101, 0]\<rparr>)"
    unfolding S1_def by code_simp
  have d1: "fst (dispatch refusing 3 (c_string [65, 0])) = 0"
    by (simp add: dispatch_def refusing_def)
  have b1: "\<not> stale b1" "b1 Message_out = Allocated"
    using q1 d1 by (simp_all add: b1_def buffers_def stale_def)
  have rx2: "rx S2 = incoming (size_t_bytes 8 @ int_bytes 3 @ [])"
    unfolding S2_def peer_def by (simp, code_simp)
  have m8: "heap 4096 (8 - 16 + 1) = None" by (simp add: heap_def)
  have q2: "read_request (heap 4096) 14 3 S2 = (No_memory, 0, 3, peer [])"
    using read_request_no_memory [where s = S2 and tlen = 8 and opc = 3 and rest = "[]"
        and malloc = "heap 4096" and ?len0.0 = 14 and ?op0.0 = 3, OF rx2 m8]
    by (simp add: S2_def peer_def incoming_def)
  have w: "wr (peer []) = []" by (simp add: peer_def)
  have r2: "serve_connection refusing (heap 4096) 14 3 S2 =
      (Continue, 0, 3, \<lparr>rx = [], wr = [], tx = [0, 0, 0, 0, 0, 0, 0, 0]\<rparr>)"
    using q2 response_error [OF w, of "[]"] by (simp add: serve_connection_def peer_def incoming_def zeros8)
  have "stale (buffers refusing {} (heap 4096) 14 3 S2 (released b1))"
    using q2 b1(2) by (simp add: buffers_def stale_def released_def)
  then have second: "accept_loop 14 3 (released b1) [Connected refusing {} (heap 4096) S2] =
      ([\<lparr>rx = [], wr = [], tx = [0, 0, 0, 0, 0, 0, 0, 0]\<rparr>], Double_free)"
    using r2 by (simp add: out_free_result)
  have first: "accept_loop 0 0 initial (Connected refusing {} (heap 4096) S1 # cs) =
      (case accept_loop 14 3 (released b1) cs of
         (ss, st) \<Rightarrow> (\<lparr>rx = [], wr = [], tx = [14, 0, 0, 0, 0, 0, 0, 0, 110, 111, 110, 99, 101, 0]\<rparr> # ss, st))"
    for cs
    using r1 b1(1) by (simp add: out_free_result b1_def)
  show ?thesis
    unfolding S1_def [symmetric] S2_def [symmetric]
    by (subst first) (simp only: second prod.case)
qed

section \<open>Properties of frames with a short length field\<close>

lemma unat_wrapped:
  fixes tlen k :: size_t
  assumes "tlen < k"
  shows "unat (tlen - k) = 2 ^ 64 - unat k + unat tlen"
proof -
  have "unat k < 2 ^ 64" using unsigned_less [of k, where ?'a = nat] by simp
  with assms show ?thesis
    by (simp add: unat_sub_if_size word_less_nat_alt word_size)
qed

lemma read_buf_refused:
  assumes "SSIZE_MAX < int (unat n)" and "length buf < unat n"
  shows "attest_util_read_buf s buf n = (0, buf, s)"
  using assms unfolding attest_util_read_buf_def by (rule rw_buf_refused)

lemma receive_response_payload:
  assumes "rd_clean (rx s)" and "rd_bytes (rx s) = size_t_bytes tlen @ rest"
  shows "\<exists>s1. rd_clean (rx s1) \<and> rd_bytes (rx s1) = rest \<and> wr s1 = wr s \<and> tx s1 = tx s \<and>
           receive_response malloc s len0 =
             (if tlen = 0 then (- EINVAL, None, s1) else
              case malloc tlen of
                None \<Rightarrow> (- ENOMEM, None, s1)
              | Some buf \<Rightarrow>
                  (case attest_util_read_buf s1 buf (tlen - 8) of
                     (rc, message_out, s') \<Rightarrow> (rc, Some message_out, s')))"
proof -
  obtain s1 where r1: "attest_util_read_buf s (size_t_bytes len0) 8 = (0, size_t_bytes tlen, s1)"
    and s1: "rd_clean (rx s1)" "rd_bytes (rx s1) = rest" "wr s1 = wr s" "tx s1 = tx s"
    using read_buf_clean [OF assms, of 8 "size_t_bytes len0"] by auto
  have "receive_response malloc s len0 =
      (if tlen = 0 then (- EINVAL, None, s1) else
       case malloc tlen of
         None \<Rightarrow> (- ENOMEM, None, s1)
       | Some buf \<Rightarrow>
           (case attest_util_read_buf s1 buf (tlen - 8) of
              (rc, message_out, s') \<Rightarrow> (rc, Some message_out, s')))"
    unfolding receive_response_def sizeof_size_t_def
    by (simp add: r1 Let_def split: option.splits)
  with s1 show ?thesis by blast
qed

lemma read_request_payload:
  assumes "rd_clean (rx s)" and "rd_bytes (rx s) = size_t_bytes tlen @ int_bytes opc @ rest"
  shows "\<exists>s2. rd_clean (rx s2) \<and> rd_bytes (rx s2) = rest \<and> wr s2 = wr s \<and> tx s2 = tx s \<and>
           read_request malloc len0 op0 s =
             (case malloc (tlen - 16 + 1) of
                None \<Rightarrow> (No_memory, 0, opc, s2)
              | Some buf \<Rightarrow>
                  (case attest_util_read_buf s2 (buf[unat (tlen - 16) := 0]) (tlen - 16) of
                     (rc, message_in, s') \<Rightarrow>
                       (if rc \<noteq> 0 then Payload_error else Request message_in, tlen - 16, opc, s')))"
proof -
  obtain s1 where r1: "attest_util_read_buf s (size_t_bytes len0) 8 = (0, size_t_bytes tlen, s1)"
    and s1: "rd_clean (rx s1)" "rd_bytes (rx s1) = int_bytes opc @ rest" "wr s1 = wr s" "tx s1 = tx s"
    using read_buf_clean [OF assms, of 8 "size_t_bytes len0"] by auto
  obtain s2 where r2: "attest_util_read_buf s1 (int_bytes op0) 4 = (0, int_bytes opc, s2)"
    and s2: "rd_clean (rx s2)" "rd_bytes (rx s2) = rest" "wr s2 = wr s1" "tx s2 = tx s1"
    using read_buf_clean [OF s1(1,2), of 4 "int_bytes op0"] by auto
  have "read_request malloc len0 op0 s =
      (case malloc (tlen - 16 + 1) of
         None \<Rightarrow> (No_memory, 0, opc, s2)
       | Some buf \<Rightarrow>
           (case attest_util_read_buf s2 (buf[unat (tlen - 16) := 0]) (tlen - 16) of
              (rc, message_in, s') \<Rightarrow>
                (if rc \<noteq> 0 then Payload_error else Request message_in, tlen - 16, opc, s')))"
    unfolding read_request_def sizeof_size_t_def sizeof_int_def
    by (simp add: r1 r2 Let_def split: option.splits prod.splits)
  with s1 s2 show ?thesis by auto
qed

lemma response_error_clean:
  assumes "wr_clean (wr s)"
  shows "\<exists>s'. response s 0 message_out = (Continue, s') \<and> tx s' = tx s @ replicate 8 0 \<and> rx s' = rx s"
  using write_buf_clean [OF assms, of 8 "size_t_bytes 0"]
  by (auto simp: response_def sizeof_size_t_def size_t_bytes_0)

lemma refused_malloc_response:
  assumes "rd_clean (rx s)" and "rd_bytes (rx s) = size_t_bytes tlen @ int_bytes opc @ rest"
    and "wr_clean (wr s)" and "malloc (tlen - 16 + 1) = None"
  shows "\<exists>s'. serve_connection h malloc len0 op0 s = (Continue, 0, opc, s') \<and>
              tx s' = tx s @ replicate 8 0 \<and> rd_bytes (rx s') = rest"
proof -
  obtain s2 where s2: "rd_bytes (rx s2) = rest" "wr s2 = wr s" "tx s2 = tx s"
    and rd: "read_request malloc len0 op0 s = (No_memory, 0, opc, s2)"
    using read_request_payload [OF assms(1,2), of malloc len0 op0] assms(4) by auto
  from assms(3) s2(2) have "wr_clean (wr s2)" by simp
  from response_error_clean [OF this, of "[]"] rd s2 show ?thesis
    by (auto simp: serve_connection_def)
qed

lemma receive_response_zero:
  assumes "rx s = incoming (size_t_bytes 0 @ rest)"
  shows "receive_response malloc s len0 = (- EINVAL, None, s\<lparr>rx := incoming rest\<rparr>)"
  using read_buf_ok [of s "size_t_bytes 0 @ rest" 8 "size_t_bytes len0"] assms
  by (simp add: receive_response_def sizeof_size_t_def)

text \<open>
  Claim C8, as amended.  Neither receiver compares the length field with the size of
  the header.  The client treats the length 0 as an error: it fails with
  \<open>-EINVAL\<close> and reads nothing more.  For a length \<open>tlen\<close> from 1 to 7 it allocates
  \<open>tlen\<close> bytes, derives the payload length \<open>tlen - 8\<close> in unsigned arithmetic, which
  is \<open>2^64 - 8 + tlen\<close>, calls \<open>attest_util_read_buf\<close> for that many bytes and returns
  what the call returns, \<open>0\<close> or \<open>-EIO\<close>, with the buffer.  The
  server, for a length \<open>tlen\<close> below 16, derives the payload length \<open>tlen - 16\<close>,
  which is \<open>2^64 - 16 + tlen\<close>, and asks \<open>malloc\<close> for one byte more; when \<open>malloc\<close>
  refuses, it writes the zero-length error response, and otherwise it calls
  \<open>attest_util_read_buf\<close> for the derived length.  The length and the opcode may
  arrive in chunks of any size.
\<close>

theorem short_total_length:
  assumes "rd_clean (rx s)"
  shows
   "(rd_bytes (rx s) = size_t_bytes 0 @ rest \<longrightarrow>
       (\<exists>s1. receive_response malloc s len0 = (- EINVAL, None, s1) \<and> rd_bytes (rx s1) = rest)) \<and>
    (rd_bytes (rx s) = size_t_bytes tlen @ rest \<and> tlen \<noteq> 0 \<and> tlen < 8 \<and> malloc tlen = Some buf \<longrightarrow>
       unat (tlen - 8) = 2 ^ 64 - 8 + unat tlen \<and>
       (\<exists>s1. rd_clean (rx s1) \<and> rd_bytes (rx s1) = rest \<and> wr s1 = wr s \<and> tx s1 = tx s \<and>
             receive_response malloc s len0 =
               (case attest_util_read_buf s1 buf (tlen - 8) of
                  (rc, message_out, s') \<Rightarrow> (rc, Some message_out, s'))) \<and>
       (fst (receive_response malloc s len0) = 0 \<or> fst (receive_response malloc s len0) = - EIO)) \<and>
    (rd_bytes (rx s) = size_t_bytes tlen @ int_bytes opc @ rest \<and> tlen < 16 \<and>
       malloc (tlen - 16 + 1) = Some buf \<longrightarrow>
       unat (tlen - 16) = 2 ^ 64 - 16 + unat tlen \<and>
       (\<exists>s2. rd_clean (rx s2) \<and> rd_bytes (rx s2) = rest \<and> wr s2 = wr s \<and> tx s2 = tx s \<and>
             read_request malloc len0 op0 s =
               (case attest_util_read_buf s2 (buf[unat (tlen - 16) := 0]) (tlen - 16) of
                  (rc, message_in, s') \<Rightarrow>
                    (if rc \<noteq> 0 then Payload_error else Request message_in, tlen - 16, opc, s')))) \<and>
    (rd_bytes (rx s) = size_t_bytes tlen @ int_bytes opc @ rest \<and> tlen < 16 \<and> wr_clean (wr s) \<and>
       malloc (tlen - 16 + 1) = None \<longrightarrow>
       tx (snd (snd (snd (serve_connection h malloc len0 op0 s)))) = tx s @ replicate 8 0)"
proof (intro conjI impI)
  assume "rd_bytes (rx s) = size_t_bytes 0 @ rest"
  from receive_response_payload [OF assms this, of malloc len0]
  show "\<exists>s1. receive_response malloc s len0 = (- EINVAL, None, s1) \<and> rd_bytes (rx s1) = rest"
    by auto
next
  assume a: "rd_bytes (rx s) = size_t_bytes tlen @ rest \<and> tlen \<noteq> 0 \<and> tlen < 8 \<and> malloc tlen = Some buf"
  then show "unat (tlen - 8) = 2 ^ 64 - 8 + unat tlen"
    using unat_wrapped [of tlen 8] by simp
  from a receive_response_payload [OF assms, of tlen rest malloc len0]
  show ex: "\<exists>s1. rd_clean (rx s1) \<and> rd_bytes (rx s1) = rest \<and> wr s1 = wr s \<and> tx s1 = tx s \<and>
             receive_response malloc s len0 =
               (case attest_util_read_buf s1 buf (tlen - 8) of
                  (rc, message_out, s') \<Rightarrow> (rc, Some message_out, s'))"
    by auto
  then obtain s1 where eq: "receive_response malloc s len0 =
      (case attest_util_read_buf s1 buf (tlen - 8) of
         (rc, message_out, s') \<Rightarrow> (rc, Some message_out, s'))"
    by blast
  obtain rc message_out s' where r: "attest_util_read_buf s1 buf (tlen - 8) = (rc, message_out, s')"
    by (cases "attest_util_read_buf s1 buf (tlen - 8)")
  from read_buf_rc [OF r] eq r
  show "fst (receive_response malloc s len0) = 0 \<or> fst (receive_response malloc s len0) = - EIO"
    by simp
next
  assume a: "rd_bytes (rx s) = size_t_bytes tlen @ int_bytes opc @ rest \<and> tlen < 16 \<and>
       malloc (tlen - 16 + 1) = Some buf"
  then show "unat (tlen - 16) = 2 ^ 64 - 16 + unat tlen"
    using unat_wrapped [of tlen 16] by simp
  from a read_request_payload [OF assms, of tlen opc rest malloc len0 op0]
  show "\<exists>s2. rd_clean (rx s2) \<and> rd_bytes (rx s2) = rest \<and> wr s2 = wr s \<and> tx s2 = tx s \<and>
             read_request malloc len0 op0 s =
               (case attest_util_read_buf s2 (buf[unat (tlen - 16) := 0]) (tlen - 16) of
                  (rc, message_in, s') \<Rightarrow>
                    (if rc \<noteq> 0 then Payload_error else Request message_in, tlen - 16, opc, s'))"
    by auto
next
  assume a: "rd_bytes (rx s) = size_t_bytes tlen @ int_bytes opc @ rest \<and> tlen < 16 \<and> wr_clean (wr s) \<and>
       malloc (tlen - 16 + 1) = None"
  then show "tx (snd (snd (snd (serve_connection h malloc len0 op0 s)))) = tx s @ replicate 8 0"
    using refused_malloc_response [OF assms, of tlen opc rest malloc h len0 op0] by auto
qed

theorem short_total_length_witness:
  "(\<exists>s1. receive_response (heap 4096)
            \<lparr>rx = [Data [0, 0, 0], Data [0, 0, 0, 0, 0, 1, 2, 3]], wr = [], tx = []\<rparr> 0 =
            (- EINVAL, None, s1) \<and> rd_bytes (rx s1) = [1, 2, 3]) \<and>
   unat ((5 :: size_t) - 8) = 2 ^ 64 - 8 + unat (5 :: size_t) \<and>
   (\<exists>s1. rd_bytes (rx s1) = [1, 2, 3] \<and>
         receive_response (heap 4096)
            \<lparr>rx = [Data [5, 0, 0, 0], Data [0, 0, 0, 0, 1], Data [2, 3]], wr = [], tx = []\<rparr> 0 =
            (0, Some (replicate 5 0), s1)) \<and>
   unat ((15 :: size_t) - 16) = 2 ^ 64 - 16 + unat (15 :: size_t) \<and>
   (\<exists>s2. rd_bytes (rx s2) = [65] \<and>
         read_request (heap 4096) 0 0
            \<lparr>rx = [Data [15, 0, 0, 0, 0, 0, 0, 0, 1], Data [0, 0, 0, 65]], wr = [], tx = []\<rparr> =
            (Request [], 15 - 16, 1, s2)) \<and>
   tx (snd (snd (snd (serve_connection refusing (heap 4096) 0 0
            \<lparr>rx = [Data [8, 0, 0, 0, 0, 0], Data [0, 0, 1, 0, 0, 0, 65]], wr = [Accept 3], tx = []\<rparr>)))) =
     replicate 8 0"
proof -
  define S0 :: sock where "S0 = \<lparr>rx = [Data [0, 0, 0], Data [0, 0, 0, 0, 0, 1, 2, 3]], wr = [], tx = []\<rparr>"
  define S5 :: sock where
    "S5 = \<lparr>rx = [Data [5, 0, 0, 0], Data [0, 0, 0, 0, 1], Data [2, 3]], wr = [], tx = []\<rparr>"
  define S15 :: sock where
    "S15 = \<lparr>rx = [Data [15, 0, 0, 0, 0, 0, 0, 0, 1], Data [0, 0, 0, 65]], wr = [], tx = []\<rparr>"
  define S8 :: sock where
    "S8 = \<lparr>rx = [Data [8, 0, 0, 0, 0, 0], Data [0, 0, 1, 0, 0, 0, 65]], wr = [Accept 3], tx = []\<rparr>"
  have clean: "rd_clean (rx S0)" "rd_clean (rx S5)" "rd_clean (rx S15)" "rd_clean (rx S8)"
    by (simp_all add: S0_def S5_def S15_def S8_def)
  have b0: "rd_bytes (rx S0) = size_t_bytes 0 @ [1, 2, 3]" unfolding S0_def by code_simp
  have b5: "rd_bytes (rx S5) = size_t_bytes 5 @ [1, 2, 3]" unfolding S5_def by code_simp
  have b15: "rd_bytes (rx S15) = size_t_bytes 15 @ int_bytes 1 @ [65]" unfolding S15_def by code_simp
  have b8: "rd_bytes (rx S8) = size_t_bytes 8 @ int_bytes 1 @ [65]" unfolding S8_def by code_simp
  have m5: "heap 4096 5 = Some (replicate 5 0)" by (simp add: heap_def)
  have m15: "heap 4096 (15 - 16 + 1) = Some []" by (simp add: heap_def)
  have m8: "heap 4096 (8 - 16 + 1) = None" by (simp add: heap_def)
  have w8: "wr_clean (wr S8)" by (simp add: S8_def)
  have big5: "SSIZE_MAX < int (unat ((5 :: size_t) - 8))" "length (replicate 5 (0 :: u8)) < unat ((5 :: size_t) - 8)"
    by (simp_all add: SSIZE_MAX_def)
  have big15: "SSIZE_MAX < int (unat ((15 :: size_t) - 16))" "length ([] :: u8 list) < unat ((15 :: size_t) - 16)"
    using unat_wrapped [of 15 16] by (simp_all add: SSIZE_MAX_def)
  have r5: "attest_util_read_buf s (replicate 5 0) (- 3) = (0, replicate 5 0, s)" for s
    using read_buf_refused [OF big5, of s] by simp
  have r15: "attest_util_read_buf s [] (- 1) = (0, [], s)" for s
    using read_buf_refused [OF big15, of s] by simp
  note t0 = short_total_length [where s = S0 and rest = "[1, 2, 3]" and malloc = "heap 4096"
      and ?len0.0 = 0, OF clean(1), THEN conjunct1, rule_format, OF b0]
  note t5 = short_total_length [where s = S5 and rest = "[1, 2, 3]" and malloc = "heap 4096"
      and tlen = 5 and buf = "replicate 5 0" and ?len0.0 = 0, OF clean(2), THEN conjunct2,
      THEN conjunct1, rule_format, OF conjI [OF b5 conjI [OF _ conjI [OF _ m5]]]]
  note t15 = short_total_length [where s = S15 and rest = "[65]" and malloc = "heap 4096"
      and tlen = 15 and opc = 1 and buf = "[]" and ?len0.0 = 0 and ?op0.0 = 0, OF clean(3),
      THEN conjunct2, THEN conjunct2, THEN conjunct1, rule_format, OF conjI [OF b15 conjI [OF _ m15]]]
  note t8 = short_total_length [where s = S8 and rest = "[65]" and malloc = "heap 4096"
      and tlen = 8 and opc = 1 and h = refusing and ?len0.0 = 0 and ?op0.0 = 0, OF clean(4),
      THEN conjunct2, THEN conjunct2, THEN conjunct2, rule_format,
      OF conjI [OF b8 conjI [OF _ conjI [OF w8 m8]]]]
  have c0: "\<exists>s1. receive_response (heap 4096) S0 0 = (- EINVAL, None, s1) \<and> rd_bytes (rx s1) = [1, 2, 3]"
    using t0 .
  have c5: "unat ((5 :: size_t) - 8) = 2 ^ 64 - 8 + unat (5 :: size_t)"
    "\<exists>s1. rd_bytes (rx s1) = [1, 2, 3] \<and>
       receive_response (heap 4096) S5 0 = (0, Some (replicate 5 0), s1)"
    using t5 by (auto simp: r5)
  have c15: "unat ((15 :: size_t) - 16) = 2 ^ 64 - 16 + unat (15 :: size_t)"
    "\<exists>s2. rd_bytes (rx s2) = [65] \<and> read_request (heap 4096) 0 0 S15 = (Request [], 15 - 16, 1, s2)"
    using t15 by (auto simp: r15)
  have c8: "tx (snd (snd (snd (serve_connection refusing (heap 4096) 0 0 S8)))) = replicate 8 0"
    using t8 by (simp add: S8_def)
  show ?thesis
    using c0 c5 c15 c8 unfolding S0_def S5_def S15_def S8_def by blast
qed

text \<open>
  What becomes of the transfer of such a length.  The kernel refuses the call, and
  \<open>attest_util_read_buf\<close> returns \<open>0\<close> all the same: the client returns \<open>0\<close> with the
  buffer as \<open>malloc\<close> left it, and the server hands the buffer to the handler of
  the opcode.  The bytes that follow the header stay unread.
\<close>

lemma short_response_accepted:
  assumes "rx s = incoming (size_t_bytes tlen @ rest)" and "tlen \<noteq> 0" and "tlen < 8"
    and "malloc tlen = Some buf" and "length buf = unat tlen"
  shows "receive_response malloc s len0 = (0, Some buf, s\<lparr>rx := incoming rest\<rparr>)"
proof -
  define s1 where "s1 = s\<lparr>rx := incoming rest\<rparr>"
  have r1: "attest_util_read_buf s (size_t_bytes len0) 8 = (0, size_t_bytes tlen, s1)"
    using read_buf_ok [of s "size_t_bytes tlen @ rest" 8 "size_t_bytes len0"] assms(1)
    by (simp add: s1_def)
  have w: "unat (tlen - 8) = 2 ^ 64 - 8 + unat tlen"
    using unat_wrapped [OF assms(3)] by simp
  have small: "unat tlen < 8" using assms(3) by (simp add: word_less_nat_alt)
  have "(9223372036854775808 :: nat) \<le> unat (tlen - 8)" by (simp add: w)
  then have big: "SSIZE_MAX < int (unat (tlen - 8))" unfolding SSIZE_MAX_def by linarith
  have r2: "attest_util_read_buf s1 buf (tlen - 8) = (0, buf, s1)"
    using big small by (intro read_buf_refused) (simp_all add: w assms(5))
  show ?thesis
    unfolding receive_response_def sizeof_size_t_def
    using assms(2,4) by (simp add: r1 Let_def r2) (simp add: s1_def)
qed

lemma short_request_dispatched:
  assumes "rx s = incoming (size_t_bytes tlen @ int_bytes opc @ rest)" and "tlen < 16"
    and "malloc (tlen - 16 + 1) = Some buf" and "int (length buf) \<le> SSIZE_MAX"
  shows "read_request malloc len0 op0 s = (Request buf, tlen - 16, opc, s\<lparr>rx := incoming rest\<rparr>)"
proof -
  define s1 where "s1 = s\<lparr>rx := incoming (int_bytes opc @ rest)\<rparr>"
  define s2 where "s2 = s\<lparr>rx := incoming rest\<rparr>"
  have r1: "attest_util_read_buf s (size_t_bytes len0) 8 = (0, size_t_bytes tlen, s1)"
    using read_buf_ok [of s "size_t_bytes tlen @ int_bytes opc @ rest" 8 "size_t_bytes len0"] assms(1)
    by (simp add: s1_def)
  have r2: "attest_util_read_buf s1 (int_bytes op0) 4 = (0, int_bytes opc, s2)"
    using read_buf_ok [of s1 "int_bytes opc @ rest" 4 "int_bytes op0"]
    by (simp add: s1_def s2_def)
  have w: "unat (tlen - 16) = 2 ^ 64 - 16 + unat tlen"
    using unat_wrapped [OF assms(2)] by simp
  have "(9223372036854775808 :: nat) \<le> unat (tlen - 16)" by (simp add: w)
  then have big: "length buf < unat (tlen - 16)" "SSIZE_MAX < int (unat (tlen - 16))"
    using assms(4) unfolding SSIZE_MAX_def by linarith+
  from big(1) have up: "buf[unat (tlen - 16) := 0] = buf" by (simp add: list_update_beyond)
  have r3: "attest_util_read_buf s2 buf (tlen - 16) = (0, buf, s2)"
    using big by (intro read_buf_refused)
  show ?thesis
    unfolding read_request_def sizeof_size_t_def sizeof_int_def
    using assms(3) by (simp add: r1 r2 Let_def up r3) (simp add: s2_def)
qed

lemma size_t_bytes_5: "[5, 0, 0, 0, 0, 0, 0, 0] = size_t_bytes 5"
  by code_simp

text \<open>
  Claim C8 as stated fails.  A response whose length field is 5, less than the eight
  bytes of its header, is not rejected: the client allocates five bytes, derives
  the payload length \<open>2^64 - 3\<close> from the field and returns \<open>0\<close>, success, with the
  three bytes that follow left unread.
\<close>

theorem short_total_length_counterexample:
  "bytes_size_t [5, 0, 0, 0, 0, 0, 0, 0] < 8 \<and>
   receive_response (heap 4096) (peer ([5, 0, 0, 0, 0, 0, 0, 0] @ [1, 2, 3])) 0 =
     (0, Some [0, 0, 0, 0, 0], peer [1, 2, 3])"
proof -
  have a: "rx (peer (size_t_bytes 5 @ [1, 2, 3])) = incoming (size_t_bytes 5 @ [1, 2, 3])"
    by (simp add: peer_def)
  have m5: "heap 4096 5 = Some (replicate 5 0)" by (simp add: heap_def)
  have "receive_response (heap 4096) (peer (size_t_bytes 5 @ [1, 2, 3])) 0 =
     (0, Some (replicate 5 0), (peer (size_t_bytes 5 @ [1, 2, 3]))\<lparr>rx := incoming [1, 2, 3]\<rparr>)"
    using a _ _ m5 by (rule short_response_accepted) simp_all
  moreover have "replicate 5 (0 :: u8) = [0, 0, 0, 0, 0]" by code_simp
  ultimately show ?thesis
    unfolding size_t_bytes_5
    by (simp add: peer_def incoming_def)
qed

section \<open>Properties of the exchange of attestation data\<close>

lemma length_be32 [simp]: "length (be32 x) = 4"
  by (simp add: be32_def)

lemma le_bytes_pad: "le_bytes (length bs + k) (le_val bs) = bs @ replicate k 0"
proof (induction bs)
  case Nil
  then show ?case by (simp add: le_bytes_0)
next
  case (Cons b bs)
  have b: "unat b < 256" using unsigned_less [of b, where ?'a = nat] by simp
  then have "(unat b + 256 * le_val bs) mod 256 = unat b"
    and "(unat b + 256 * le_val bs) div 256 = le_val bs" by simp_all
  with Cons show ?case by simp
qed

lemma le_val_4: "length bs = 4 \<Longrightarrow> le_val bs < 2 ^ 32"
  using le_val_bound [of bs] by simp

lemma unat_htonl: "unat (htonl x) = le_val (be32 x)"
  using le_val_4 [of "be32 x"] by (simp add: htonl_def unat_of_nat)

lemma unat_ucast_up: "unat (ucast (x :: 32 word) :: size_t) = unat x"
proof -
  have "unat x < 2 ^ 64"
    using unsigned_less [of x, where ?'a = nat] by simp
  then show ?thesis
    by (simp add: unsigned_ucast_eq take_bit_nat_eq_self)
qed

lemma ucast_down_up [simp]: "(ucast (ucast (x :: 32 word) :: size_t) :: 32 word) = x"
  by (simp add: ucast_up_ucast_id is_up)

lemma size_t_bytes_htonl: "size_t_bytes (ucast (htonl x)) = be32 x @ replicate 4 0"
proof -
  have "unat (ucast (htonl x) :: size_t) = le_val (be32 x)"
    by (simp add: unat_htonl unat_ucast_up)
  then show ?thesis
    using le_bytes_pad [of "be32 x" 4] by (simp add: size_t_bytes_def)
qed

lemma be32_inverse: "length bs = 4 \<Longrightarrow> be32 (of_nat (le_val bs)) = rev bs"
  using le_val_4 [of bs] le_bytes_le_val [of bs] by (simp add: be32_def unat_of_nat)

lemma ntohl_htonl [simp]: "ntohl (htonl x) = x"
proof -
  have "be32 (htonl x) = rev (be32 x)"
    unfolding htonl_def by (rule be32_inverse) simp
  also have "\<dots> = le_bytes 4 (unat x)" by (simp add: be32_def)
  finally have "le_val (be32 (htonl x)) = unat x"
    using unsigned_less [of x, where ?'a = nat] by (simp add: le_val_le_bytes)
  then show ?thesis by (simp add: ntohl_def)
qed

lemma ucast_down_of_nat: "(ucast (of_nat L :: size_t) :: 32 word) = of_nat L"
  by (simp add: word_eq_iff_unsigned [where ?'a = nat] unsigned_ucast_eq unsigned_of_nat min_def)

lemma ucast_up_eq_0: "(ucast (n :: 32 word) :: size_t) = 0 \<longleftrightarrow> n = 0"
  by (simp add: word_eq_iff_unsigned [where ?'a = nat] unat_ucast_up)

lemma read_evidence:
  "(case attest_data_path of
      None \<Rightarrow> (0, 0, [])
    | Some f \<Rightarrow>
        (case attest_util_read_file f 0 [] of
           (rc, file_size, client_attest_data) \<Rightarrow>
             (file_size, if rc = 0 then file_size else 0, client_attest_data))) =
   (of_nat (length (evidence attest_data_path)) :: size_t,
    of_nat (length (evidence attest_data_path)) :: size_t, evidence attest_data_path)"
  by (auto simp: evidence_def attest_util_read_file_def EACCES_def ENOMEM_def Let_def
      split: option.splits attest_file.splits)

lemma attest_data_exchange:
  assumes "wr s = []" and "length (evidence path) < 2 ^ 64"
    and "rx s = incoming (size_t_bytes field @ reply @ rest)"
    and "length reply = unat (ntohl (ucast field))"
    and "ntohl (ucast field) \<noteq> 0 \<Longrightarrow> malloc (ucast (ntohl (ucast field))) = Some buf \<and> length buf = length reply"
  shows "send_receive_attest_data malloc s path =
     (0, (if ntohl (ucast field) = 0 then None else Some (ucast (ntohl (ucast field)), reply)),
      s\<lparr>rx := incoming rest,
        tx := tx s @ be32 (of_nat (length (evidence path))) @ replicate 4 0 @ evidence path\<rparr>)"
proof -
  define ev where "ev = evidence path"
  define L where "L = length ev"
  define n where "n = ntohl (ucast field)"
  define s1 where "s1 = s\<lparr>tx := tx s @ be32 (of_nat L) @ replicate 4 0\<rparr>"
  define s2 where "s2 = s1\<lparr>tx := tx s1 @ ev\<rparr>"
  define s3 where "s3 = s2\<lparr>rx := incoming (reply @ rest)\<rparr>"
  define s4 where "s4 = s3\<lparr>rx := incoming rest\<rparr>"
  define d1 :: size_t where "d1 = ucast (htonl (of_nat L))"
  have L: "L < 2 ^ 64" using assms(2) by (simp add: L_def ev_def)
  have w1: "attest_util_write_buf s (size_t_bytes d1) 8 = (0, size_t_bytes d1, s1)"
    using write_buf_ok [of s 8 "size_t_bytes d1"] assms(1)
    by (simp add: s1_def d1_def size_t_bytes_htonl)
  have w2: "(if (of_nat L :: size_t) \<noteq> 0 then attest_util_write_buf s1 ev (of_nat L)
             else (0, ev, s1)) = (0, ev, s2)"
  proof (cases "L = 0")
    case True
    then show ?thesis by (simp add: s2_def L_def)
  next
    case False
    with L have "(of_nat L :: size_t) \<noteq> 0"
      using word_of_nat_pos [of L] by auto
    then show ?thesis
      using write_buf_ok [of s1 L ev] assms(1) L by (simp add: s1_def s2_def L_def)
  qed
  have r1: "attest_util_read_buf s2 (size_t_bytes d1) 8 = (0, size_t_bytes field, s3)"
    using read_buf_ok [of s2 "size_t_bytes field @ reply @ rest" 8 "size_t_bytes d1"] assms(3)
    by (simp add: s1_def s2_def s3_def)
  have r2: "attest_util_read_buf s3 buf (ucast n) = (0, reply, s4)" if "n \<noteq> 0"
  proof -
    have b: "length buf = length reply" using assms(5) that by (simp add: n_def)
    have u: "unat n < 2 ^ 64" using unsigned_less [of n, where ?'a = nat] by simp
    have "attest_util_read_buf s3 buf (of_nat (unat n)) =
        (0, take (unat n) (reply @ rest) @ drop (unat n) buf, s3\<lparr>rx := incoming (drop (unat n) (reply @ rest))\<rparr>)"
      using u by (intro read_buf_ok) (simp_all add: s3_def assms(4) n_def b)
    then show ?thesis
      using assms(4) b by (simp add: n_def s4_def)
  qed
  have m: "malloc (ucast n) = Some buf" if "n \<noteq> 0"
    using assms(5) that by (simp add: n_def)
  have fin: "s4 = s\<lparr>rx := incoming rest, tx := tx s @ be32 (of_nat L) @ replicate 4 0 @ ev\<rparr>"
    by (simp add: s4_def s3_def s2_def s1_def)
  have n0: "n = 0 \<Longrightarrow> s3 = s4"
    using assms(4) by (simp add: s3_def s4_def n_def)
  show ?thesis
    unfolding send_receive_attest_data_def Let_def read_evidence sizeof_size_t_def
    apply (simp only: ev_def [symmetric] L_def [symmetric] prod.case ucast_down_of_nat d1_def [symmetric])
    apply (simp only: w1 prod.case)
    apply (simp add: w2 r1 ucast_up_eq_0)
    apply (auto simp: r2 [unfolded n_def] m [unfolded n_def] n0 [unfolded n_def] fin)
    done
qed

text \<open>
  Claim C6, as amended.  The length that precedes the evidence is a field of eight
  bytes, the size of a \<open>size_t\<close>: the 32-bit length in network order in its first
  four bytes, zero in the other four.  The client writes this field for its own
  evidence (length 0 when no file is configured or readable) and then the evidence;
  it reads a field of eight bytes, takes the length \<open>n\<close> from the first four and
  reads \<open>n\<close> bytes of the server's evidence.  On a socket that accepts the writes and
  delivers the reply, and with memory for the reply, the exchange returns 0, also
  when either side has no evidence.
\<close>

theorem attest_data_side_channel:
  assumes "wr s = []" and "length (evidence path) < 2 ^ 64"
    and "rx s = incoming (size_t_bytes field @ reply @ rest)"
    and "length reply = unat (ntohl (ucast field))"
    and "ntohl (ucast field) \<noteq> 0 \<Longrightarrow>
           malloc (ucast (ntohl (ucast field))) = Some buf \<and> length buf = length reply"
  shows "send_receive_attest_data malloc s path =
     (0, (if ntohl (ucast field) = 0 then None else Some (ucast (ntohl (ucast field)), reply)),
      s\<lparr>rx := incoming rest,
        tx := tx s @ be32 (of_nat (length (evidence path))) @ replicate 4 0 @ evidence path\<rparr>)"
  using assms by (rule attest_data_exchange)

theorem attest_data_side_channel_witness:
  "send_receive_attest_data (heap 4096) (peer (size_t_bytes (ucast (htonl 2)) @ [7, 8] @ []))
      (Some (Contents [170])) =
     (0, Some (2, [7, 8]), \<lparr>rx = [], wr = [], tx = be32 1 @ replicate 4 0 @ [170]\<rparr>) \<and>
   send_receive_attest_data (heap 4096) (peer (size_t_bytes (ucast (htonl 0)) @ [] @ [])) None =
     (0, None, \<lparr>rx = [], wr = [], tx = be32 0 @ replicate 4 0 @ []\<rparr>)"
proof -
  have a: "wr (peer bs) = []" for bs by (simp add: peer_def)
  have b: "length (evidence (Some (Contents [170]))) < 2 ^ 64" "length (evidence None) < 2 ^ 64"
    by (simp_all add: evidence_def)
  have c: "rx (peer bs) = incoming bs" for bs by (simp add: peer_def)
  have d: "length [7 :: u8, 8] = unat (ntohl (ucast (ucast (htonl 2) :: size_t)))"
    "length ([] :: u8 list) = unat (ntohl (ucast (ucast (htonl 0) :: size_t)))" by simp_all
  have e: "heap 4096 (ucast (ntohl (ucast (ucast (htonl 2) :: size_t)))) = Some (replicate 2 0) \<and>
      length (replicate 2 (0 :: u8)) = length [7 :: u8, 8]"
    by (simp add: heap_def)
  have f: "ntohl (ucast (ucast (htonl 0) :: size_t)) \<noteq> 0 \<Longrightarrow>
      heap 4096 (ucast (ntohl (ucast (ucast (htonl 0) :: size_t)))) = Some [] \<and> length ([] :: u8 list) = length ([] :: u8 list)"
    by simp
  show ?thesis
    using attest_data_side_channel [where s = "peer (size_t_bytes (ucast (htonl 2)) @ [7, 8] @ [])"
        and path = "Some (Contents [170])" and field = "ucast (htonl 2)" and reply = "[7, 8]"
        and rest = "[]" and malloc = "heap 4096" and buf = "replicate 2 0", OF a b(1) c d(1) e]
      attest_data_side_channel [where s = "peer (size_t_bytes (ucast (htonl 0)) @ [] @ [])"
        and path = None and field = "ucast (htonl 0)" and reply = "[]"
        and rest = "[]" and malloc = "heap 4096" and buf = "[]", OF a b(2) c d(2) f]
    by (simp add: peer_def incoming_def evidence_def)
qed

lemma be32_1: "be32 1 = [0, 0, 0, 1]" by code_simp
lemma be32_0: "be32 0 = [0, 0, 0, 0]" by code_simp
lemma zeros4: "replicate 4 (0 :: u8) = [0, 0, 0, 0]" by code_simp
lemma size_t_bytes_zero8: "size_t_bytes 0 = [0, 0, 0, 0, 0, 0, 0, 0]" by code_simp

text \<open>
  Claim C6 as stated fails.  With one byte of evidence the client writes nine bytes:
  four bytes of length, four zero bytes and the evidence, not the 4-byte length
  followed by the evidence.  With no evidence it writes eight zero bytes, not four.
\<close>

theorem attest_data_side_channel_counterexample:
  "send_receive_attest_data (heap 4096) (peer [0, 0, 0, 0, 0, 0, 0, 0]) (Some (Contents [170])) =
     (0, None, \<lparr>rx = [], wr = [], tx = [0, 0, 0, 1, 0, 0, 0, 0, 170]\<rparr>) \<and>
   [0, 0, 0, 1, 0, 0, 0, 0, 170] \<noteq> be32 1 @ [170] \<and>
   send_receive_attest_data (heap 4096) (peer [0, 0, 0, 0, 0, 0, 0, 0]) None =
     (0, None, \<lparr>rx = [], wr = [], tx = [0, 0, 0, 0, 0, 0, 0, 0]\<rparr>) \<and>
   [0, 0, 0, 0, 0, 0, 0, 0] \<noteq> be32 0"
proof -
  have a: "wr (peer bs) = []" for bs by (simp add: peer_def)
  have c: "rx (peer [0, 0, 0, 0, 0, 0, 0, 0]) = incoming (size_t_bytes 0 @ [] @ [])"
    by (simp add: peer_def size_t_bytes_zero8)
  have n: "ntohl 0 = 0" by (simp add: ntohl_def be32_0)
  have d: "length ([] :: u8 list) = unat (ntohl (ucast (0 :: size_t)))" by (simp add: n)
  have f: "ntohl (ucast (0 :: size_t)) \<noteq> 0 \<Longrightarrow>
      heap 4096 (ucast (ntohl (ucast (0 :: size_t)))) = Some [] \<and> length ([] :: u8 list) = length ([] :: u8 list)"
    by (simp add: n)
  have x: "send_receive_attest_data (heap 4096) (peer [0, 0, 0, 0, 0, 0, 0, 0]) path =
     (0, None, \<lparr>rx = [], wr = [],
        tx = be32 (of_nat (length (evidence path))) @ replicate 4 0 @ evidence path\<rparr>)"
    if "length (evidence path) < 2 ^ 64" for path
    using attest_data_exchange [where s = "peer [0, 0, 0, 0, 0, 0, 0, 0]" and path = path
        and field = 0 and reply = "[]" and rest = "[]" and malloc = "heap 4096" and buf = "[]",
        OF a that c d f]
    by (simp add: n peer_def incoming_def)
  show ?thesis
    using x [of "Some (Contents [170])"] x [of None]
    by (simp add: evidence_def be32_1 be32_0 zeros4)
qed

section \<open>Further properties of the transfer functions\<close>

text \<open>
  The part of the contract of \<open>attest_util_read_buf\<close> that holds: on a stream
  without faults, however the bytes arrive in chunks, the function returns \<open>0\<close>
  exactly when \<open>n\<close> bytes arrive before the end of the stream, and \<open>-EIO\<close>
  otherwise; on success the buffer holds the first \<open>n\<close> bytes of the stream and
  the following bytes are left for the next read.
\<close>

lemma read_buf_exact:
  assumes "rd_clean (rx s)" and "length buf = unat n"
  shows "fst (attest_util_read_buf s buf n) =
           (if unat n \<le> length (rd_bytes (rx s)) then 0 else - EIO) \<and>
         (unat n \<le> length (rd_bytes (rx s)) \<longrightarrow>
            fst (snd (attest_util_read_buf s buf n)) = take (unat n) (rd_bytes (rx s)) \<and>
            rd_bytes (rx (snd (snd (attest_util_read_buf s buf n)))) = drop (unat n) (rd_bytes (rx s)))"
  using read_loop_clean [of s 0 n buf] assms
  by (auto simp: attest_util_read_buf_def attest_util_rw_buf_def split: prod.splits if_splits)

lemma read_buf_exact_witness:
  "attest_util_read_buf \<lparr>rx = [Data [9, 8], Data [7, 6, 5]], wr = [], tx = []\<rparr> [1, 2, 3, 4] 4 =
     (0, [9, 8, 7, 6], \<lparr>rx = [Data [5]], wr = [], tx = []\<rparr>) \<and>
   fst (attest_util_read_buf \<lparr>rx = [Data [9, 8]], wr = [], tx = []\<rparr> [1, 2, 3, 4] 4) = - EIO"
proof -
  have a: "rd_clean (rx \<lparr>rx = [Data [9, 8], Data [7, 6, 5]], wr = [], tx = []\<rparr>)"
    "rd_clean (rx \<lparr>rx = [Data [9, 8]], wr = [], tx = []\<rparr>)" by simp_all
  have b: "length [1 :: u8, 2, 3, 4] = unat (4 :: size_t)" by simp
  have c: "attest_util_read_buf \<lparr>rx = [Data [9, 8], Data [7, 6, 5]], wr = [], tx = []\<rparr> [1, 2, 3, 4] 4 =
     (0, [9, 8, 7, 6], \<lparr>rx = [Data [5]], wr = [], tx = []\<rparr>)"
    by code_simp
  show ?thesis
    using read_buf_exact [OF a(1) b] read_buf_exact [OF a(2) b] c by simp
qed

text \<open>
  Likewise for \<open>attest_util_write_buf\<close>: when no write fails, however few bytes
  the kernel accepts at a time, the function returns \<open>0\<close> and exactly the first
  \<open>n\<close> bytes of the buffer have been written, in order.
\<close>

lemma write_buf_exact:
  assumes "wr_clean (wr s)" and "unat n \<le> length buf"
  shows "fst (attest_util_write_buf s buf n) = 0 \<and>
         tx (snd (snd (attest_util_write_buf s buf n))) = tx s @ take (unat n) buf"
  using write_loop_clean [OF assms(1) _ assms(2), of 0]
  by (auto simp: attest_util_write_buf_def attest_util_rw_buf_def split: prod.splits)

lemma write_buf_exact_witness:
  "fst (attest_util_write_buf \<lparr>rx = [], wr = [Accept 1, Accept 2], tx = []\<rparr> [1, 2, 3, 4] 4) = 0 \<and>
   tx (snd (snd (attest_util_write_buf \<lparr>rx = [], wr = [Accept 1, Accept 2], tx = []\<rparr> [1, 2, 3, 4] 4))) =
     [] @ take (unat (4 :: size_t)) [1, 2, 3, 4]"
proof -
  have a: "wr_clean (wr \<lparr>rx = [], wr = [Accept 1, Accept 2], tx = []\<rparr>)" by simp
  have b: "unat (4 :: size_t) \<le> length [1 :: u8, 2, 3, 4]" by simp
  show ?thesis
    using write_buf_exact [OF a b] by simp
qed

section \<open>Further properties of the protocol\<close>

lemma response_ok:
  assumes "wr s = []" and "length out < 2 ^ 64 - 9"
  shows "response s (of_nat (length out) + 9) (out @ [0]) =
           (Continue, s\<lparr>tx := tx s @ size_t_bytes (of_nat (length out) + 9) @ out @ [0]\<rparr>)"
proof -
  define L where "L = length out"
  define len :: size_t where "len = of_nat L + 9"
  define s1 where "s1 = s\<lparr>tx := tx s @ size_t_bytes len\<rparr>"
  have L: "L + 9 < 2 ^ 64" using assms(2) by (simp add: L_def)
  have w1: "attest_util_write_buf s (size_t_bytes len) 8 = (0, size_t_bytes len, s1)"
    using write_buf_ok [of s 8 "size_t_bytes len"] assms(1) by (simp add: s1_def)
  have nz: "len \<noteq> 0"
    using word_of_nat_pos [of "L + 9"] L by (auto simp: len_def)
  define k :: size_t where "k = of_nat (L + 1)"
  have l8: "len - 8 = k" by (simp add: len_def k_def)
  have w2: "attest_util_write_buf s1 (out @ [0]) k =
      (0, out @ [0], s1\<lparr>tx := tx s1 @ out @ [0]\<rparr>)"
    unfolding k_def
    using write_buf_ok [of s1 "L + 1" "out @ [0]"] assms(1) L by (simp add: s1_def L_def)
  show ?thesis
    unfolding response_def sizeof_size_t_def L_def [symmetric] len_def [symmetric]
    by (simp add: w1 nz l8 w2) (simp add: s1_def)
qed

lemma strlen_terminated:
  "0 \<notin> set out \<Longrightarrow> strlen (out @ [0]) = of_nat (length out)"
  by (simp add: strlen_def c_string_terminated)

text \<open>
  The answer to a request whose handler succeeds: the length field counts itself,
  the string and its terminator, and the string follows with its terminator.
\<close>

lemma successful_handler_response:
  assumes "read_request malloc len0 op0 s = (Request m, len, op, s1)" and "wr s1 = []"
    and "dispatch h op (c_string m) = (0, out)" and "0 \<notin> set out" and "length out < 2 ^ 64 - 9"
  shows "serve_connection h malloc len0 op0 s =
           (Continue, of_nat (length out) + 9, op,
            s1\<lparr>tx := tx s1 @ size_t_bytes (of_nat (length out) + 9) @ out @ [0]\<rparr>)"
  using assms(1,3) response_ok [OF assms(2,5)]
  by (simp add: serve_connection_def strlen_terminated [OF assms(4)] sizeof_size_t_def add.assoc
      Let_def)

lemma ex_read_nonce:
  "read_request (heap 4096) 0 0 (peer [17, 0, 0, 0, 0, 0, 0, 0, 3, 0, 0, 0, 65]) = (Request [65, 0], 1, 3, peer [])"
  by code_simp

lemma successful_handler_response_witness:
  "serve_connection refusing (heap 4096) 0 0 (peer [17, 0, 0, 0, 0, 0, 0, 0, 3, 0, 0, 0, 65]) =
     (Continue, 14, 3,
      \<lparr>rx = [], wr = [], tx = size_t_bytes 14 @ [110, 111, 110, 99, 101] @ [0]\<rparr>)"
proof -
  have w: "wr (peer []) = []" by (simp add: peer_def)
  have d: "dispatch refusing 3 (c_string [65, 0]) = (0, [110, 111, 110, 99, 101])"
    by (simp add: dispatch_def refusing_def)
  have z: "0 \<notin> set [110 :: u8, 111, 110, 99, 101]" by simp
  have l: "length [110 :: u8, 111, 110, 99, 101] < 2 ^ 64 - 9" by simp
  show ?thesis
    using successful_handler_response [OF ex_read_nonce w d z l]
    by (simp add: peer_def incoming_def)
qed

text \<open>
  The client reads such an answer back: it returns \<open>0\<close>, and \<open>*message_out\<close> holds
  the string the handler produced.
\<close>

lemma response_round_trip:
  assumes "0 \<notin> set out" and "length out < 2 ^ 64 - 9"
    and "rx c = incoming (size_t_bytes (of_nat (length out) + 9) @ out @ [0] @ rest)"
    and "malloc (of_nat (length out) + 9) = Some buf" and "length buf = length out + 9"
  shows "receive_response malloc c len =
           (0, Some (out @ [0] @ drop (length out + 1) buf), c\<lparr>rx := incoming rest\<rparr>) \<and>
         c_string (out @ [0] @ drop (length out + 1) buf) = out"
proof -
  define L where "L = length out"
  define tlen :: size_t where "tlen = of_nat L + 9"
  define c1 where "c1 = c\<lparr>rx := incoming (out @ [0] @ rest)\<rparr>"
  have L: "L + 9 < 2 ^ 64" using assms(2) by (simp add: L_def)
  have r1: "attest_util_read_buf c (size_t_bytes len) 8 = (0, size_t_bytes tlen, c1)"
    using read_buf_ok [of c "size_t_bytes tlen @ out @ [0] @ rest" 8 "size_t_bytes len"] assms(3)
    by (simp add: c1_def tlen_def L_def)
  have nz: "tlen \<noteq> 0"
    using word_of_nat_pos [of "L + 9"] L by (auto simp: tlen_def)
  define k :: size_t where "k = of_nat (L + 1)"
  have l8: "tlen - 8 = k" by (simp add: tlen_def k_def)
  have r2: "attest_util_read_buf c1 buf k =
      (0, out @ [0] @ drop (L + 1) buf, c\<lparr>rx := incoming rest\<rparr>)"
    unfolding k_def
    using read_buf_ok [of c1 "out @ [0] @ rest" "L + 1" buf] assms(5) L
    by (simp add: c1_def L_def)
  have cs: "c_string (out @ [0] @ drop (L + 1) buf) = out"
    using assms(1) by (induction out) (auto simp: c_string_def)
  have m: "malloc tlen = Some buf" using assms(4) by (simp add: tlen_def L_def)
  have "receive_response malloc c len =
      (0, Some (out @ [0] @ drop (L + 1) buf), c\<lparr>rx := incoming rest\<rparr>)"
    unfolding receive_response_def sizeof_size_t_def
    by (simp add: r1 nz m l8 r2 Let_def)
  with cs show ?thesis by (simp add: L_def)
qed

lemma response_round_trip_witness:
  "receive_response (heap 4096) (peer (size_t_bytes (of_nat (length [65 :: u8, 66]) + 9) @ [65, 66] @ [0] @ [])) 0 =
     (0, Some ([65, 66] @ [0] @ drop (length [65 :: u8, 66] + 1) (replicate 11 0)), peer []) \<and>
   c_string ([65, 66] @ [0] @ drop (length [65 :: u8, 66] + 1) (replicate 11 0)) = [65, 66]"
proof -
  have a: "0 \<notin> set [65 :: u8, 66]" by simp
  have b: "length [65 :: u8, 66] < 2 ^ 64 - 9" by simp
  have c: "rx (peer bs) = incoming bs" for bs by (simp add: peer_def)
  have d: "heap 4096 (of_nat (length [65 :: u8, 66]) + 9) = Some (replicate 11 0)"
    by (simp add: heap_def)
  have e: "length (replicate 11 (0 :: u8)) = length [65 :: u8, 66] + 9" by simp
  have p: "(peer bs)\<lparr>rx := incoming []\<rparr> = peer []" for bs
    by (simp add: peer_def incoming_def)
  show ?thesis
    using response_round_trip [where out = "[65, 66]" and rest = "[]" and malloc = "heap 4096"
        and buf = "replicate 11 0" and len = 0
        and c = "peer (size_t_bytes (of_nat (length [65 :: u8, 66]) + 9) @ [65, 66] @ [0] @ [])",
        OF a b c d e]
    by (simp only: p)
qed

text \<open>
  A response whose length field is 0 is a failure for the client: it returns
  \<open>-EINVAL\<close>, allocates nothing and reads nothing after the field.
\<close>

lemma zero_length_response_is_failure:
  assumes "rx c = incoming (size_t_bytes 0 @ rest)"
  shows "receive_response malloc c len = (- EINVAL, None, c\<lparr>rx := incoming rest\<rparr>)"
  using assms by (rule receive_response_zero)

lemma zero_length_response_is_failure_witness:
  "receive_response (heap 4096) (peer (size_t_bytes 0 @ [1, 2, 3])) 0 =
     (- EINVAL, None, (peer (size_t_bytes 0 @ [1, 2, 3]))\<lparr>rx := incoming [1, 2, 3]\<rparr>)"
proof -
  have c: "rx (peer bs) = incoming bs" for bs by (simp add: peer_def)
  show ?thesis
    using zero_length_response_is_failure [where c = "peer (size_t_bytes 0 @ [1, 2, 3])"
        and rest = "[1, 2, 3]" and malloc = "heap 4096" and len = 0, OF c] .
qed

text \<open>
  The loop of \<open>attest_util_check_mask\<close> reads one byte past a shorter asserted
  mask: with an empty asserted mask and a required mask of one byte, the byte that
  follows the asserted mask in memory decides the result.
\<close>

lemma check_mask_reads_past_asserted_mask:
  "check_mask bA [] bR [r] = (if (bA 0 AND r) = r then 0 else - ENOENT)"
proof -
  have "check_mask_loop 0 (array [] bA) 1 (array [r] bR) 0 =
      (if (bA 0 AND r) = r then 0 else - ENOENT)"
    by (subst check_mask_loop.simps, subst check_mask_loop.simps) (simp add: array_def)
  then show ?thesis
    by (simp add: check_mask_def attest_util_check_mask_def)
qed

end
